theory Spec2Isabelle
  imports Main "HOL-Library.AList"
begin

section \<open>Python values used by suffix\_tree.py\<close>

text \<open>
  Exceptions of the Python run time are values: a method that can raise returns
  \<open>error + 'r\<close> with \<open>Inl\<close> for the exception. A loop or recursion that may not
  come back returns an \<open>option\<close> around that, \<open>None\<close> standing for "does not return".
  The interpreter's recursion limit is not part of the model.
\<close>

datatype error = AttributeError | KeyError | IndexError | UnboundLocalError

text \<open>\<open>xs[i]\<close> for a list or string: negative indices count from the end.\<close>

definition py_index :: "'b list \<Rightarrow> int \<Rightarrow> error + 'b" where
  "py_index xs i =
     (if 0 \<le> i \<and> i < int (length xs) then Inr (xs ! nat i)
      else if i < 0 \<and> - int (length xs) \<le> i then Inr (xs ! nat (i + int (length xs)))
      else Inl IndexError)"

text \<open>\<open>xs[i] = v\<close> (item assignment), same index rule.\<close>

definition py_setitem :: "'b list \<Rightarrow> int \<Rightarrow> 'b \<Rightarrow> error + 'b list" where
  "py_setitem xs i v =
     (if 0 \<le> i \<and> i < int (length xs) then Inr (xs[nat i := v])
      else if i < 0 \<and> - int (length xs) \<le> i then Inr (xs[nat (i + int (length xs)) := v])
      else Inl IndexError)"

text \<open>A slice bound is moved into \<open>0 .. len\<close>; \<open>xs[a:b]\<close> never raises.\<close>

definition py_bound :: "nat \<Rightarrow> int \<Rightarrow> nat" where
  "py_bound n i = (if i < 0 then nat (max 0 (i + int n)) else min n (nat i))"

definition py_slice :: "'b list \<Rightarrow> int \<Rightarrow> int \<Rightarrow> 'b list" where
  "py_slice xs a b = take (py_bound (length xs) b - py_bound (length xs) a) (drop (py_bound (length xs) a) xs)"

text \<open>
  A \<open>dict\<close> is an association list with distinct keys in insertion order:
  \<open>d[k] = v\<close> replaces in place or appends, \<open>d[k]\<close> and \<open>d.pop(k)\<close> raise
  \<open>KeyError\<close> on a missing key, \<open>d.get(k)\<close> gives \<open>None\<close>.
\<close>

definition dict_contains :: "('k \<times> 'v) list \<Rightarrow> 'k \<Rightarrow> bool" where
  "dict_contains d k = (map_of d k \<noteq> None)"

definition dict_getitem :: "('k \<times> 'v) list \<Rightarrow> 'k \<Rightarrow> error + 'v" where
  "dict_getitem d k = (case map_of d k of None \<Rightarrow> Inl KeyError | Some v \<Rightarrow> Inr v)"

definition dict_setitem :: "('k \<times> 'v) list \<Rightarrow> 'k \<Rightarrow> 'v \<Rightarrow> ('k \<times> 'v) list" where
  "dict_setitem d k v = AList.update k v d"

definition dict_pop :: "('k \<times> 'v) list \<Rightarrow> 'k \<Rightarrow> error + ('k \<times> 'v) list" where
  "dict_pop d k = (case map_of d k of None \<Rightarrow> Inl KeyError | Some v \<Rightarrow> Inr (AList.delete k d))"

section \<open>The classes Node, Edge and Suffix\<close>

record node =
  suffix_node :: int

definition Node :: node where
  "Node = \<lparr>suffix_node = - 1\<rparr>"

record edge =
  first_obj_index :: int
  last_obj_index :: int
  source_node_index :: int
  dest_node_index :: int

definition Edge :: "int \<Rightarrow> int \<Rightarrow> int \<Rightarrow> int \<Rightarrow> edge" where
  "Edge first_obj last_obj source_node dest_node =
     \<lparr>edge.first_obj_index = first_obj, edge.last_obj_index = last_obj,
      edge.source_node_index = source_node, edge.dest_node_index = dest_node\<rparr>"

definition edge_length :: "edge \<Rightarrow> int" where
  "edge_length e = edge.last_obj_index e - edge.first_obj_index e"

record suffix =
  source_node_index :: int
  first_obj_index :: int
  last_obj_index :: int

definition Suffix :: "int \<Rightarrow> int \<Rightarrow> int \<Rightarrow> suffix" where
  "Suffix source_node first_obj last_obj =
     \<lparr>suffix.source_node_index = source_node, suffix.first_obj_index = first_obj,
      suffix.last_obj_index = last_obj\<rparr>"

definition suffix_length :: "suffix \<Rightarrow> int" where
  "suffix_length s = suffix.last_obj_index s - suffix.first_obj_index s"

definition explicit :: "suffix \<Rightarrow> bool" where
  "explicit s = (suffix.first_obj_index s > suffix.last_obj_index s)"

definition implicit :: "suffix \<Rightarrow> bool" where
  "implicit s = (suffix.last_obj_index s \<ge> suffix.first_obj_index s)"

section \<open>The class SuffixTree\<close>

text \<open>
  The instance is a record of its attributes. \<open>__init__\<close> assigns \<open>seq\<close>, \<open>N\<close>,
  \<open>nodes\<close>, \<open>edges\<close> and \<open>active\<close>. \<open>find_substring\<close> also reads
  \<open>case_insensitive\<close> and \<open>string\<close>; these two are optional fields, \<open>None\<close> for an
  attribute that was never assigned, and reading such an attribute raises
  \<open>AttributeError\<close>.

  Edge objects are shared between the table and local variables. The table holds each
  object under one key only and \<open>_split_edge\<close> changes an edge between taking it out
  and putting it back, so edges are plain values here.
\<close>

record 'a SuffixTree =
  seq :: "'a list"
  N :: int
  nodes :: "node list"
  edges :: "((int \<times> 'a) \<times> edge) list"
  active :: suffix
  case_insensitive :: "bool option"
  string :: "'a list option"

definition insert_edge :: "'a SuffixTree \<Rightarrow> edge \<Rightarrow> error + 'a SuffixTree" where
  "insert_edge t e =
     (case py_index (seq t) (edge.first_obj_index e) of
        Inl err \<Rightarrow> Inl err
      | Inr c \<Rightarrow> Inr (t\<lparr>edges := dict_setitem (edges t) (edge.source_node_index e, c) e\<rparr>))"

definition remove_edge :: "'a SuffixTree \<Rightarrow> edge \<Rightarrow> error + 'a SuffixTree" where
  "remove_edge t e =
     (case py_index (seq t) (edge.first_obj_index e) of
        Inl err \<Rightarrow> Inl err
      | Inr c \<Rightarrow>
          (case dict_pop (edges t) (edge.source_node_index e, c) of
             Inl err \<Rightarrow> Inl err
           | Inr d \<Rightarrow> Inr (t\<lparr>edges := d\<rparr>)))"

text \<open>\<open>self.nodes[i].suffix_node = v\<close>\<close>

definition set_suffix_node :: "'a SuffixTree \<Rightarrow> int \<Rightarrow> int \<Rightarrow> error + 'a SuffixTree" where
  "set_suffix_node t i v =
     (case py_index (nodes t) i of
        Inl err \<Rightarrow> Inl err
      | Inr n \<Rightarrow>
          (case py_setitem (nodes t) i (n\<lparr>suffix_node := v\<rparr>) of
             Inl err \<Rightarrow> Inl err
           | Inr ns \<Rightarrow> Inr (t\<lparr>nodes := ns\<rparr>)))"

text \<open>
  \<open>_split_edge(edge, suffix)\<close> returns the changed tree and the index of the new node.
\<close>

definition split_edge :: "'a SuffixTree \<Rightarrow> edge \<Rightarrow> suffix \<Rightarrow> error + ('a SuffixTree \<times> int)" where
  "split_edge t edge0 sfx =
     (let t1 = t\<lparr>nodes := nodes t @ [Node]\<rparr>;
          e = Edge (edge.first_obj_index edge0)
                   (edge.first_obj_index edge0 + suffix_length sfx)
                   (suffix.source_node_index sfx)
                   (int (length (nodes t1)) - 1)
      in case remove_edge t1 edge0 of
           Inl err \<Rightarrow> Inl err
         | Inr t2 \<Rightarrow>
       (case insert_edge t2 e of
           Inl err \<Rightarrow> Inl err
         | Inr t3 \<Rightarrow>
       (case set_suffix_node t3 (edge.dest_node_index e) (suffix.source_node_index sfx) of
           Inl err \<Rightarrow> Inl err
         | Inr t4 \<Rightarrow>
       (let edge1 = edge0\<lparr>edge.first_obj_index := edge.first_obj_index edge0 + (suffix_length sfx + 1)\<rparr>;
            edge2 = edge1\<lparr>edge.source_node_index := edge.dest_node_index e\<rparr>
        in case insert_edge t4 edge2 of
             Inl err \<Rightarrow> Inl err
           | Inr t5 \<Rightarrow> Inr (t5, edge.dest_node_index e)))))"

partial_function (option) canonize_suffix :: "'a SuffixTree \<Rightarrow> suffix \<Rightarrow> (error + suffix) option" where
  "canonize_suffix t s =
     (if \<not> explicit s then
        (case py_index (seq t) (suffix.first_obj_index s) of
           Inl err \<Rightarrow> Some (Inl err)
         | Inr c \<Rightarrow>
        (case dict_getitem (edges t) (suffix.source_node_index s, c) of
           Inl err \<Rightarrow> Some (Inl err)
         | Inr e \<Rightarrow>
             if edge_length e \<le> suffix_length s then
               canonize_suffix t
                 ((s\<lparr>suffix.first_obj_index := suffix.first_obj_index s + (edge_length e + 1)\<rparr>)
                    \<lparr>suffix.source_node_index := edge.dest_node_index e\<rparr>)
             else Some (Inr s)))
      else Some (Inr s))"

declare canonize_suffix.simps [code]

text \<open>
  The head of the loop in \<open>_add_prefix\<close>, up to the call of \<open>_split_edge\<close>:
  \<open>None\<close> is \<open>break\<close>, otherwise the tree and \<open>parent_node\<close>.
\<close>

definition add_prefix_head :: "'a SuffixTree \<Rightarrow> int \<Rightarrow> error + ('a SuffixTree \<times> int) option" where
  "add_prefix_head t last_obj =
     (let parent_node = suffix.source_node_index (active t) in
      if explicit (active t) then
        (case py_index (seq t) last_obj of
           Inl err \<Rightarrow> Inl err
         | Inr c \<Rightarrow>
             if dict_contains (edges t) (suffix.source_node_index (active t), c) then Inr None
             else Inr (Some (t, parent_node)))
      else
        (case py_index (seq t) (suffix.first_obj_index (active t)) of
           Inl err \<Rightarrow> Inl err
         | Inr c \<Rightarrow>
        (case dict_getitem (edges t) (suffix.source_node_index (active t), c) of
           Inl err \<Rightarrow> Inl err
         | Inr e \<Rightarrow>
        (case py_index (seq t) (edge.first_obj_index e + suffix_length (active t) + 1) of
           Inl err \<Rightarrow> Inl err
         | Inr x \<Rightarrow>
        (case py_index (seq t) last_obj of
           Inl err \<Rightarrow> Inl err
         | Inr y \<Rightarrow>
             if x = y then Inr None
             else (case split_edge t e (active t) of
                     Inl err \<Rightarrow> Inl err
                   | Inr r \<Rightarrow> Inr (Some r)))))))"

text \<open>
  The rest of the loop body, from \<open>self.nodes.append(Node())\<close> up to the call of
  \<open>_canonize_suffix\<close>.
\<close>

definition add_prefix_extend :: "'a SuffixTree \<Rightarrow> int \<Rightarrow> int \<Rightarrow> int \<Rightarrow> error + 'a SuffixTree" where
  "add_prefix_extend t last_obj last_parent_node parent_node =
     (let t1 = t\<lparr>nodes := nodes t @ [Node]\<rparr>;
          e = Edge last_obj (N t1) parent_node (int (length (nodes t1)) - 1)
      in case insert_edge t1 e of
           Inl err \<Rightarrow> Inl err
         | Inr t2 \<Rightarrow>
       (case (if last_parent_node > 0 then set_suffix_node t2 last_parent_node parent_node
              else Inr t2) of
           Inl err \<Rightarrow> Inl err
         | Inr t3 \<Rightarrow>
             if suffix.source_node_index (active t3) = 0 then
               Inr (t3\<lparr>active := (active t3)\<lparr>suffix.first_obj_index :=
                                       suffix.first_obj_index (active t3) + 1\<rparr>\<rparr>)
             else
               (case py_index (nodes t3) (suffix.source_node_index (active t3)) of
                  Inl err \<Rightarrow> Inl err
                | Inr n \<Rightarrow>
                    Inr (t3\<lparr>active := (active t3)\<lparr>suffix.source_node_index := suffix_node n\<rparr>\<rparr>))))"

text \<open>\<open>self._canonize_suffix(self.active)\<close>\<close>

definition canonize_active :: "'a SuffixTree \<Rightarrow> (error + 'a SuffixTree) option" where
  "canonize_active t =
     Option.bind (canonize_suffix t (active t))
       (\<lambda>r. case r of Inl err \<Rightarrow> Some (Inl err) | Inr s \<Rightarrow> Some (Inr (t\<lparr>active := s\<rparr>)))"

text \<open>
  The \<open>while True\<close> loop of \<open>_add_prefix\<close>; it ends with the tree, \<open>last_parent_node\<close>
  and \<open>parent_node\<close> at the \<open>break\<close>.
\<close>

partial_function (option) add_prefix_loop ::
    "'a SuffixTree \<Rightarrow> int \<Rightarrow> int \<Rightarrow> (error + ('a SuffixTree \<times> int \<times> int)) option" where
  "add_prefix_loop t last_obj last_parent_node =
     (case add_prefix_head t last_obj of
        Inl err \<Rightarrow> Some (Inl err)
      | Inr None \<Rightarrow> Some (Inr (t, last_parent_node, suffix.source_node_index (active t)))
      | Inr (Some (t1, parent_node)) \<Rightarrow>
          (case add_prefix_extend t1 last_obj last_parent_node parent_node of
             Inl err \<Rightarrow> Some (Inl err)
           | Inr t2 \<Rightarrow>
               Option.bind (canonize_active t2)
                 (\<lambda>r. case r of
                        Inl err \<Rightarrow> Some (Inl err)
                      | Inr t3 \<Rightarrow> add_prefix_loop t3 last_obj parent_node)))"

declare add_prefix_loop.simps [code]

text \<open>
  The statements of \<open>_add_prefix\<close> after the loop, up to the call of
  \<open>_canonize_suffix\<close>.
\<close>

definition add_prefix_link :: "'a SuffixTree \<Rightarrow> int \<Rightarrow> int \<Rightarrow> error + 'a SuffixTree" where
  "add_prefix_link t last_parent_node parent_node =
     (case (if last_parent_node > 0 then set_suffix_node t last_parent_node parent_node
            else Inr t) of
        Inl err \<Rightarrow> Inl err
      | Inr t1 \<Rightarrow>
          Inr (t1\<lparr>active := (active t1)\<lparr>suffix.last_obj_index :=
                                    suffix.last_obj_index (active t1) + 1\<rparr>\<rparr>))"

definition add_prefix_finish :: "'a SuffixTree \<Rightarrow> int \<Rightarrow> int \<Rightarrow> (error + 'a SuffixTree) option" where
  "add_prefix_finish t last_parent_node parent_node =
     (case add_prefix_link t last_parent_node parent_node of
        Inl err \<Rightarrow> Some (Inl err)
      | Inr t1 \<Rightarrow> canonize_active t1)"

definition add_prefix :: "'a SuffixTree \<Rightarrow> int \<Rightarrow> (error + 'a SuffixTree) option" where
  "add_prefix t last_obj =
     Option.bind (add_prefix_loop t last_obj (- 1))
       (\<lambda>r. case r of
              Inl err \<Rightarrow> Some (Inl err)
            | Inr (t1, last_parent_node, parent_node) \<Rightarrow>
                add_prefix_finish t1 last_parent_node parent_node)"

text \<open>\<open>for i in ...: self._add_prefix(i)\<close>\<close>

fun add_prefixes :: "'a SuffixTree \<Rightarrow> nat list \<Rightarrow> (error + 'a SuffixTree) option" where
  "add_prefixes t [] = Some (Inr t)"
| "add_prefixes t (i # is) =
     Option.bind (add_prefix t (int i))
       (\<lambda>r. case r of Inl err \<Rightarrow> Some (Inl err) | Inr t1 \<Rightarrow> add_prefixes t1 is)"

text \<open>The attributes assigned by \<open>__init__\<close> before its loop.\<close>

definition new_tree :: "'a list \<Rightarrow> 'a SuffixTree" where
  "new_tree s =
     \<lparr>seq = s, N = int (length s) - 1, nodes = [Node], edges = [],
      active = Suffix 0 0 (- 1), case_insensitive = None, string = None\<rparr>"

definition SuffixTree_init :: "'a list \<Rightarrow> (error + 'a SuffixTree) option" where
  "SuffixTree_init s = add_prefixes (new_tree s) [0 ..< length s]"

section \<open>Queries\<close>

text \<open>
  The \<open>while\<close> loop of \<open>find_substring\<close>. \<open>str\<close> is the value read from
  \<open>self.string\<close> (optional, see above); \<open>prev\<close> holds \<open>edge\<close> and \<open>ln\<close> of the
  latest pass, unbound before the first.
\<close>

partial_function (option) find_substring_loop ::
    "'a SuffixTree \<Rightarrow> 'a list \<Rightarrow> int \<Rightarrow> int \<Rightarrow> (edge \<times> int) option \<Rightarrow> (error + int) option" where
  "find_substring_loop t substring i curr_node prev =
     (if i < int (length substring) then
        (case py_index substring i of
           Inl err \<Rightarrow> Some (Inl err)
         | Inr c \<Rightarrow>
        (case map_of (edges t) (curr_node, c) of
           None \<Rightarrow> Some (Inr (- 1))
         | Some e \<Rightarrow>
             (let ln = min (edge_length e + 1) (int (length substring) - i) in
              case string t of
                None \<Rightarrow> Some (Inl AttributeError)
              | Some str \<Rightarrow>
                  if py_slice substring i (i + ln)
                       \<noteq> py_slice str (edge.first_obj_index e) (edge.first_obj_index e + ln)
                  then Some (Inr (- 1))
                  else find_substring_loop t substring (i + (edge_length e + 1))
                         (edge.dest_node_index e) (Some (e, ln)))))
      else
        (case prev of
           None \<Rightarrow> Some (Inl UnboundLocalError)
         | Some (e, ln) \<Rightarrow> Some (Inr (edge.first_obj_index e - int (length substring) + ln))))"

declare find_substring_loop.simps [code]

text \<open>
  \<open>lower\<close> is the method \<open>substring.lower()\<close> of the pattern's type.
\<close>

definition find_substring ::
    "('a list \<Rightarrow> 'a list) \<Rightarrow> 'a SuffixTree \<Rightarrow> 'a list \<Rightarrow> (error + int) option" where
  "find_substring lower t substring =
     (if substring = [] then Some (Inr (- 1))
      else
        (case case_insensitive t of
           None \<Rightarrow> Some (Inl AttributeError)
         | Some ci \<Rightarrow>
             find_substring_loop t (if ci then lower substring else substring) 0 0 None))"

definition has_substring ::
    "('a list \<Rightarrow> 'a list) \<Rightarrow> 'a SuffixTree \<Rightarrow> 'a list \<Rightarrow> (error + bool) option" where
  "has_substring lower t substring =
     map_option (map_sum id (\<lambda>r. r \<noteq> - 1)) (find_substring lower t substring)"

section \<open>Predicates used in the statements\<close>

text \<open>The attributes that no method assigns after \<open>__init__\<close>.\<close>

definition same_attrs :: "'a SuffixTree \<Rightarrow> 'a SuffixTree \<Rightarrow> bool" where
  "same_attrs t t' = (seq t' = seq t \<and> N t' = N t \<and> case_insensitive t' = case_insensitive t \<and> string t' = string t)"

text \<open>The tree that the constructor builds from the one-symbol sequence \<open>a\<close>.\<close>

definition example_tree :: "char SuffixTree" where
  "example_tree =
     \<lparr>seq = ''a'', N = 0, nodes = [Node, Node], edges = [((0, CHR ''a''), Edge 0 0 0 1)],
      active = Suffix 0 1 0, case_insensitive = None, string = None\<rparr>"

text \<open>
  The tree in the third phase of the construction from \<open>aab\<close>, when the loop of
  \<open>_add_prefix\<close> is about to split the edge from the root.
\<close>

definition example_split_tree :: "char SuffixTree" where
  "example_split_tree =
     \<lparr>seq = ''aab'', N = 2, nodes = [Node, Node], edges = [((0, CHR ''a''), Edge 0 2 0 1)],
      active = Suffix 0 1 1, case_insensitive = None, string = None\<rparr>"

text \<open>The part of the sequence that an edge stands for, from its begin to its end index.\<close>

definition edge_label :: "'a list \<Rightarrow> edge \<Rightarrow> 'a list" where
  "edge_label s e = py_slice s (edge.first_obj_index e) (edge.last_obj_index e + 1)"

text \<open>
  Invariant (1) of the edge table: the keys are distinct and every edge is stored under
  the key \<open>_insert_edge\<close> computes for it, so no two edges of the table leave the same
  node with the same first symbol.
\<close>

definition edge_table_ok :: "'a SuffixTree \<Rightarrow> bool" where
  "edge_table_ok t =
     (distinct (map fst (edges t)) \<and>
      (\<forall>(k, e) \<in> set (edges t).
          fst k = edge.source_node_index e \<and>
          py_index (seq t) (edge.first_obj_index e) = Inr (snd k)))"

text \<open>
  The number of recursive calls that \<open>_canonize_suffix\<close> makes: the same tests as
  \<open>canonize_suffix\<close>, counting one for each descent.
\<close>

partial_function (option) canonize_depth :: "'a SuffixTree \<Rightarrow> suffix \<Rightarrow> nat option" where
  "canonize_depth t s =
     (if \<not> explicit s then
        (case py_index (seq t) (suffix.first_obj_index s) of
           Inl err \<Rightarrow> Some 0
         | Inr c \<Rightarrow>
        (case dict_getitem (edges t) (suffix.source_node_index s, c) of
           Inl err \<Rightarrow> Some 0
         | Inr e \<Rightarrow>
             if edge_length e \<le> suffix_length s then
               Option.bind
                 (canonize_depth t
                   ((s\<lparr>suffix.first_obj_index := suffix.first_obj_index s + (edge_length e + 1)\<rparr>)
                      \<lparr>suffix.source_node_index := edge.dest_node_index e\<rparr>))
                 (\<lambda>n. Some (Suc n))
             else Some 0))
      else Some 0)"

declare canonize_depth.simps [code]

text \<open>Every edge of the table stands for at least one symbol.\<close>

definition spans_ok :: "'a SuffixTree \<Rightarrow> bool" where
  "spans_ok t = (\<forall>(k, e) \<in> set (edges t). edge.first_obj_index e \<le> edge.last_obj_index e)"

text \<open>
  Where \<open>_canonize_suffix\<close> stops: the suffix is explicit, or the edge it lies on is
  longer than the suffix.
\<close>

definition canonical :: "'a SuffixTree \<Rightarrow> suffix \<Rightarrow> bool" where
  "canonical t s =
     (explicit s \<or>
      (\<exists>c e. py_index (seq t) (suffix.first_obj_index s) = Inr c \<and>
             dict_getitem (edges t) (suffix.source_node_index s, c) = Inr e \<and>
             suffix_length s < edge_length e))"

text \<open>What holds of the tree each time the loop of \<open>_add_prefix\<close> is entered.\<close>

definition loop_inv :: "'a SuffixTree \<Rightarrow> bool" where
  "loop_inv t = (N t = int (length (seq t)) - 1 \<and> spans_ok t \<and> canonical t (active t))"

text \<open>
  The states of the construction from \<open>s\<close>. \<open>loop_state s i t lp\<close>: in phase
  \<open>i\<close> (the call \<open>_add_prefix(i)\<close>) the loop is entered with tree \<open>t\<close> and
  \<open>last_parent_node = lp\<close>; a phase starts from the tree that the earlier phases have
  built. \<open>canonize_call s t\<close>: \<open>_canonize_suffix(self.active)\<close> is called on tree
  \<open>t\<close>, at the end of a pass of the loop or after the loop.
\<close>

inductive loop_state :: "'a list \<Rightarrow> nat \<Rightarrow> 'a SuffixTree \<Rightarrow> int \<Rightarrow> bool" for s :: "'a list" where
  first_pass:
    "add_prefixes (new_tree s) [0 ..< i] = Some (Inr t) \<Longrightarrow> i < length s \<Longrightarrow>
     loop_state s i t (- 1)"
| next_pass:
    "loop_state s i t last_parent_node \<Longrightarrow>
     add_prefix_head t (int i) = Inr (Some (t1, parent_node)) \<Longrightarrow>
     add_prefix_extend t1 (int i) last_parent_node parent_node = Inr t2 \<Longrightarrow>
     canonize_active t2 = Some (Inr t3) \<Longrightarrow>
     loop_state s i t3 parent_node"

inductive canonize_call :: "'a list \<Rightarrow> 'a SuffixTree \<Rightarrow> bool" for s :: "'a list" where
  in_loop:
    "loop_state s i t last_parent_node \<Longrightarrow>
     add_prefix_head t (int i) = Inr (Some (t1, parent_node)) \<Longrightarrow>
     add_prefix_extend t1 (int i) last_parent_node parent_node = Inr t2 \<Longrightarrow>
     canonize_call s t2"
| after_loop:
    "loop_state s i t last_parent_node \<Longrightarrow>
     add_prefix_head t (int i) = Inr None \<Longrightarrow>
     add_prefix_link t last_parent_node (suffix.source_node_index (active t)) = Inr t2 \<Longrightarrow>
     canonize_call s t2"

text \<open>
  The construction from \<open>aaba\<close>: the tree after three phases, and the tree on which the
  fourth phase calls \<open>_canonize_suffix\<close> after its loop.
\<close>

definition example_phase_tree :: "char SuffixTree" where
  "example_phase_tree =
     \<lparr>seq = ''aaba'', N = 3,
      nodes = [Node, Node, \<lparr>suffix_node = 0\<rparr>, Node, Node],
      edges = [((0, CHR ''a''), Edge 0 0 0 2), ((2, CHR ''a''), Edge 1 3 2 1),
               ((2, CHR ''b''), Edge 2 3 2 3), ((0, CHR ''b''), Edge 2 3 0 4)],
      active = Suffix 0 3 2, case_insensitive = None, string = None\<rparr>"

definition example_canonize_tree :: "char SuffixTree" where
  "example_canonize_tree = example_phase_tree\<lparr>active := Suffix 0 3 3\<rparr>"

text \<open>
  The quantities in which the shape of the tree is described. \<open>link_of ns v\<close> is the
  \<open>suffix_node\<close> of node \<open>v\<close> (\<open>- 1\<close> where there is no such node). A node
  \<open>branch\<close>es when it is the root or carries a suffix link; the other nodes are the
  leaves. A depth function \<open>d\<close> gives every branching node the number of symbols on
  the path from the root to it: \<open>links_ok\<close> says that a suffix link leads to a
  branching node of smaller depth.
\<close>

definition link_of :: "node list \<Rightarrow> int \<Rightarrow> int" where
  "link_of ns v = (if 0 \<le> v \<and> v < int (length ns) then suffix_node (ns ! nat v) else - 1)"

definition branch :: "(int \<Rightarrow> int) \<Rightarrow> int \<Rightarrow> bool" where
  "branch lk v = (v = 0 \<or> (0 < v \<and> 0 \<le> lk v))"

definition links_ok :: "(int \<Rightarrow> int) \<Rightarrow> (int \<Rightarrow> int) \<Rightarrow> bool" where
  "links_ok d lk =
     (d 0 = 0 \<and>
      (\<forall>v. 0 < v \<and> 0 \<le> lk v \<longrightarrow> branch lk (lk v) \<and> 0 \<le> d (lk v) \<and> d (lk v) < d v))"

text \<open>
  An entry of the edge table, with \<open>n\<close> nodes, last index \<open>hi\<close> of the sequence and
  \<open>j\<close> the start of the suffix the construction is working on: the edge is stored under
  its source node, leaves a branching node, ends in an existing node and stands for at
  least one symbol; an edge into a branching node adds its length to the depth, an edge
  into a leaf runs to the end of the sequence and belongs to a suffix that starts
  before \<open>j\<close>.
\<close>

definition edge_ok ::
    "(int \<Rightarrow> int) \<Rightarrow> (int \<Rightarrow> int) \<Rightarrow> int \<Rightarrow> int \<Rightarrow> int \<Rightarrow> (int \<times> 'a) \<times> edge \<Rightarrow> bool" where
  "edge_ok d lk n hi j x =
     (fst (fst x) = edge.source_node_index (snd x) \<and>
      branch lk (edge.source_node_index (snd x)) \<and>
      edge.dest_node_index (snd x) < n \<and>
      edge.first_obj_index (snd x) \<le> edge.last_obj_index (snd x) \<and>
      (if branch lk (edge.dest_node_index (snd x))
       then d (edge.dest_node_index (snd x))
              = d (edge.source_node_index (snd x)) + (edge_length (snd x) + 1)
       else edge.last_obj_index (snd x) = hi \<and>
            edge.first_obj_index (snd x) - d (edge.source_node_index (snd x)) < j))"

text \<open>
  For the active point \<open>a\<close>: \<open>jpos d a\<close> is the index at which the suffix it stands for
  starts, \<open>adepth d a\<close> the number of symbols between the root and the active point.
\<close>

definition jpos :: "(int \<Rightarrow> int) \<Rightarrow> suffix \<Rightarrow> int" where
  "jpos d a = suffix.first_obj_index a - d (suffix.source_node_index a)"

definition adepth :: "(int \<Rightarrow> int) \<Rightarrow> suffix \<Rightarrow> int" where
  "adepth d a = d (suffix.source_node_index a) + (suffix_length a + 1)"

text \<open>
  The shape of the tree at every point of the construction: the links and the edges are
  as described above, the active point starts at a branching node and ends inside the
  sequence, and there are fewer edges than nodes.
\<close>

definition ginv :: "(int \<Rightarrow> int) \<Rightarrow> 'a SuffixTree \<Rightarrow> bool" where
  "ginv d t =
     (nodes t \<noteq> [] \<and> N t = int (length (seq t)) - 1 \<and>
      links_ok d (link_of (nodes t)) \<and>
      (\<forall>x \<in> set (edges t).
          edge_ok d (link_of (nodes t)) (int (length (nodes t))) (N t) (jpos d (active t)) x) \<and>
      branch (link_of (nodes t)) (suffix.source_node_index (active t)) \<and>
      suffix.last_obj_index (active t) \<le> N t \<and>
      length (edges t) + 1 \<le> length (nodes t))"

text \<open>The tree before the first leaf is added: the root alone.\<close>

definition pristine :: "(int \<Rightarrow> int) \<Rightarrow> 'a SuffixTree \<Rightarrow> bool" where
  "pristine d t =
     (length (nodes t) = 1 \<and> edges t = [] \<and> jpos d (active t) = 0 \<and>
      suffix.source_node_index (active t) = 0 \<and> suffix_length (active t) = - 1)"

text \<open>
  What holds each time the loop of \<open>_add_prefix(i)\<close> is entered with
  \<open>last_parent_node = lp\<close>. The node \<open>lp\<close>, when there is one, already carries a link
  and lies deeper than the active point. After \<open>first_obj_index += 1\<close> at the root on an
  empty suffix the active suffix has length \<open>- 2\<close>; the leaf for symbol \<open>i\<close> then hangs
  from the root, so the next pass leaves the loop. The number of nodes is at most twice
  the number of suffixes that have a leaf.
\<close>

definition loop_ginv :: "(int \<Rightarrow> int) \<Rightarrow> 'a SuffixTree \<Rightarrow> int \<Rightarrow> int \<Rightarrow> bool" where
  "loop_ginv d t i lp =
     (ginv d t \<and> suffix.last_obj_index (active t) = i - 1 \<and>
      (0 < lp \<longrightarrow> 0 \<le> link_of (nodes t) lp \<and> adepth d (active t) < d lp) \<and>
      (- 1 \<le> suffix_length (active t) \<or>
         (suffix_length (active t) = - 2 \<and> suffix.source_node_index (active t) = 0 \<and> lp = 0 \<and>
          (\<exists>c. py_index (seq t) i = Inr c \<and> map_of (edges t) (0, c) \<noteq> None))) \<and>
      (int (length (nodes t)) \<le> 2 * jpos d (active t) \<or> pristine d t) \<and>
      (suffix_length (active t) = - 2 \<and> 2 \<le> jpos d (active t) \<longrightarrow>
         int (length (nodes t)) < 2 * jpos d (active t)))"

text \<open>What holds between the phases, before \<open>_add_prefix(n)\<close> is called.\<close>

definition phase_ginv :: "(int \<Rightarrow> int) \<Rightarrow> 'a SuffixTree \<Rightarrow> int \<Rightarrow> bool" where
  "phase_ginv d t n =
     (ginv d t \<and> suffix.last_obj_index (active t) = n - 1 \<and>
      - 1 \<le> suffix_length (active t) \<and>
      (int (length (nodes t)) \<le> 2 * jpos d (active t) \<or> pristine d t) \<and>
      (adepth d (active t) \<le> 0 \<and> 2 \<le> jpos d (active t) \<longrightarrow>
         int (length (nodes t)) < 2 * jpos d (active t)))"

text \<open>
  What holds in a pass of the loop between the test at its head and the insertion of the
  new leaf under \<open>parent_node = p\<close>.
\<close>

definition leaf_ready :: "(int \<Rightarrow> int) \<Rightarrow> 'a SuffixTree \<Rightarrow> int \<Rightarrow> int \<Rightarrow> int \<Rightarrow> bool" where
  "leaf_ready d t i lp p =
     (ginv d t \<and> suffix.last_obj_index (active t) = i - 1 \<and>
      - 1 \<le> suffix_length (active t) \<and>
      branch (link_of (nodes t)) p \<and> d p = adepth d (active t) \<and>
      (suffix_length (active t) = - 1 \<longrightarrow> p = suffix.source_node_index (active t)) \<and>
      (0 < lp \<longrightarrow> 0 \<le> link_of (nodes t) lp \<and> d p < d lp) \<and>
      int (length (nodes t)) \<le> 2 * jpos d (active t) + 1 \<and>
      (suffix_length (active t) = - 1 \<and> 1 \<le> jpos d (active t) \<longrightarrow>
         int (length (nodes t)) \<le> 2 * jpos d (active t)))"

text \<open>
  An internal node is a node other than the root that an edge of the table leaves (the
  nodes that \<open>_split_edge\<close> creates; a leaf has no outgoing edge). Its suffix link is
  resolved when its \<open>suffix_node\<close> is not \<open>- 1\<close>.
\<close>

definition internal_node :: "'a SuffixTree \<Rightarrow> int \<Rightarrow> bool" where
  "internal_node t v = (v \<noteq> 0 \<and> (\<exists>x \<in> set (edges t). edge.source_node_index (snd x) = v))"

definition linked :: "'a SuffixTree \<Rightarrow> int \<Rightarrow> bool" where
  "linked t v = (0 \<le> v \<and> v < int (length (nodes t)) \<and> suffix_node (nodes t ! nat v) \<noteq> - 1)"

text \<open>The tree that the constructor builds from \<open>aab\<close>.\<close>

definition example_final_tree :: "char SuffixTree" where
  "example_final_tree =
     \<lparr>seq = ''aab'', N = 2,
      nodes = [Node, Node, \<lparr>suffix_node = 0\<rparr>, Node, Node],
      edges = [((0, CHR ''a''), Edge 0 0 0 2), ((2, CHR ''a''), Edge 1 2 2 1),
               ((2, CHR ''b''), Edge 2 2 2 3), ((0, CHR ''b''), Edge 2 2 0 4)],
      active = Suffix 0 3 2, case_insensitive = None, string = None\<rparr>"

section \<open>The labels of the nodes\<close>

text \<open>
  The sequence is \<open>S\<close> and the edge table is read as a map \<open>M\<close> from keys to edges.
  \<open>same_syms S a b n\<close>: the \<open>n\<close> symbols of \<open>S\<close> from index \<open>a\<close> on are the
  \<open>n\<close> symbols from index \<open>b\<close> on.
\<close>

definition same_syms :: "'a list \<Rightarrow> int \<Rightarrow> int \<Rightarrow> int \<Rightarrow> bool" where
  "same_syms S a b n = (\<forall>m \<in> {0 ..< n}. S ! nat (a + m) = S ! nat (b + m))"

text \<open>
  \<open>path S M a b v\<close>: the edges on the way from the root (node \<open>0\<close>) to node \<open>v\<close>
  spell \<open>S[a:b]\<close>, one edge after the other. An edge stands for the symbols of \<open>S\<close>
  from its \<open>first_obj_index\<close> to its \<open>last_obj_index\<close>.
\<close>

inductive path :: "'a list \<Rightarrow> (int \<times> 'a \<Rightarrow> edge option) \<Rightarrow> int \<Rightarrow> int \<Rightarrow> int \<Rightarrow> bool"
  for S :: "'a list" and M :: "int \<times> 'a \<Rightarrow> edge option" where
  at_root: "path S M a a 0"
| along: "path S M a b u \<Longrightarrow> M (u, c) = Some e \<Longrightarrow>
          same_syms S (edge.first_obj_index e) b (edge_length e + 1) \<Longrightarrow>
          path S M a (b + (edge_length e + 1)) (edge.dest_node_index e)"

text \<open>
  \<open>reads S M u a c\<close>: the symbols \<open>S[a]\<close> to \<open>S[c]\<close> can be read downwards from node
  \<open>u\<close>, ending at a node or inside an edge; when \<open>c < a\<close> there is nothing to read.
\<close>

inductive reads :: "'a list \<Rightarrow> (int \<times> 'a \<Rightarrow> edge option) \<Rightarrow> int \<Rightarrow> int \<Rightarrow> int \<Rightarrow> bool"
  for S :: "'a list" and M :: "int \<times> 'a \<Rightarrow> edge option" where
  nothing: "c < a \<Longrightarrow> reads S M u a c"
| inside: "a \<le> c \<Longrightarrow> M (u, S ! nat a) = Some e \<Longrightarrow> c - a \<le> edge_length e \<Longrightarrow>
           same_syms S (edge.first_obj_index e) a (c - a + 1) \<Longrightarrow> reads S M u a c"
| across: "a \<le> c \<Longrightarrow> M (u, S ! nat a) = Some e \<Longrightarrow> edge_length e < c - a \<Longrightarrow>
           same_syms S (edge.first_obj_index e) a (edge_length e + 1) \<Longrightarrow>
           reads S M (edge.dest_node_index e) (a + (edge_length e + 1)) c \<Longrightarrow> reads S M u a c"

text \<open>
  The table describes a tree on \<open>n\<close> nodes: every edge is stored under its source node
  and the symbol at its begin index, its ends are nodes, the root is no destination, it
  stands for at least one symbol, and no two edges lead to the same node.
\<close>

definition tree_ok :: "'a list \<Rightarrow> (int \<times> 'a \<Rightarrow> edge option) \<Rightarrow> int \<Rightarrow> bool" where
  "tree_ok S M n =
     ((\<forall>k e. M k = Some e \<longrightarrow>
         fst k = edge.source_node_index e \<and> 0 \<le> fst k \<and> fst k < n \<and>
         1 \<le> edge.dest_node_index e \<and> edge.dest_node_index e < n \<and>
         0 \<le> edge.first_obj_index e \<and> edge.first_obj_index e \<le> edge.last_obj_index e \<and>
         snd k = S ! nat (edge.first_obj_index e)) \<and>
      (\<forall>k e k' e'. M k = Some e \<and> M k' = Some e' \<and>
         edge.dest_node_index e = edge.dest_node_index e' \<longrightarrow> k = k'))"

text \<open>
  \<open>j\<close> is the start of the suffix that the construction works on; the suffixes that
  start before \<open>j\<close> have their leaves. \<open>starts_ok\<close>: what an edge is labelled with
  stands in the sequence right after the label of its source node, for a suffix that has
  its leaf. \<open>suffixes_ok\<close>, in phase \<open>i\<close>: a suffix that has its leaf can be read to
  the end of the sequence, any other up to symbol \<open>i - 1\<close>.
\<close>

definition starts_ok :: "'a list \<Rightarrow> (int \<times> 'a \<Rightarrow> edge option) \<Rightarrow> int \<Rightarrow> bool" where
  "starts_ok S M j =
     (\<forall>k e. M k = Some e \<longrightarrow>
        (\<exists>a. 0 \<le> a \<and> a < j \<and> path S M a (edge.first_obj_index e) (fst k)))"

definition suffixes_ok :: "'a list \<Rightarrow> (int \<times> 'a \<Rightarrow> edge option) \<Rightarrow> int \<Rightarrow> int \<Rightarrow> bool" where
  "suffixes_ok S M j i =
     ((\<forall>h. 0 \<le> h \<and> h < j \<longrightarrow> reads S M 0 h (int (length S) - 1)) \<and>
      (\<forall>h. j \<le> h \<longrightarrow> reads S M 0 h (i - 1)))"

text \<open>
  \<open>links_exact\<close>: the \<open>suffix_node\<close> of a node \<open>v\<close> other than those in \<open>X\<close> is
  its suffix link: when the way to \<open>v\<close> spells \<open>S[a:b]\<close>, the way to \<open>lk v\<close> spells
  \<open>S[a + 1:b]\<close>.
\<close>

definition links_exact ::
    "'a list \<Rightarrow> (int \<times> 'a \<Rightarrow> edge option) \<Rightarrow> (int \<Rightarrow> int) \<Rightarrow> (int \<Rightarrow> bool) \<Rightarrow> bool" where
  "links_exact S M lk X =
     (\<forall>v. 0 < v \<and> 0 \<le> lk v \<and> \<not> X v \<longrightarrow>
        (\<exists>a b. 0 \<le> a \<and> b \<le> int (length S) \<and>
               path S M a b v \<and> path S M (a + 1) b (lk v)))"

text \<open>
  The active point: its source node has the label \<open>S[j:first_obj_index]\<close> and the rest
  of the active suffix can be read from there.
\<close>

definition active_ok :: "'a list \<Rightarrow> (int \<times> 'a \<Rightarrow> edge option) \<Rightarrow> int \<Rightarrow> suffix \<Rightarrow> bool" where
  "active_ok S M j a =
     (0 \<le> j \<and> path S M j (suffix.first_obj_index a) (suffix.source_node_index a) \<and>
      reads S M (suffix.source_node_index a) (suffix.first_obj_index a) (suffix.last_obj_index a))"

text \<open>
  \<open>occurs_before S j i\<close>: the symbols \<open>S[j:i]\<close> stand at an earlier place of the
  sequence too, followed there by a symbol other than \<open>S[i]\<close>. \<open>pending\<close>: the node
  \<open>last_parent_node = lp\<close>, when there is one, has the label \<open>S[j - 1:i]\<close>, and the
  active point is at a node unless \<open>S[j - 1:i]\<close> stands at an earlier place, followed
  there by another symbol than \<open>S[i]\<close>.
\<close>

definition occurs_before :: "'a list \<Rightarrow> int \<Rightarrow> int \<Rightarrow> bool" where
  "occurs_before S j i =
     (\<exists>q. 0 \<le> q \<and> q < j \<and> same_syms S q j (i - j) \<and> S ! nat (q + (i - j)) \<noteq> S ! nat i)"

definition pending ::
    "'a list \<Rightarrow> (int \<times> 'a \<Rightarrow> edge option) \<Rightarrow> int \<Rightarrow> int \<Rightarrow> int \<Rightarrow> suffix \<Rightarrow> bool" where
  "pending S M j i lp a =
     (0 < lp \<longrightarrow> 1 \<le> j \<and> path S M (j - 1) i lp \<and> (explicit a \<or> occurs_before S (j - 1) i))"

text \<open>
  What holds of the labels each time the loop of \<open>_add_prefix(i)\<close> is entered with
  \<open>last_parent_node = lp\<close>, between the test at the head of the loop and the insertion
  of the new leaf under \<open>parent_node = p\<close>, and between the phases. The link of
  \<open>last_parent_node\<close> is still to be assigned; so is the link of a node that
  \<open>_split_edge\<close> has just made.
\<close>

definition loop_sinv :: "'a SuffixTree \<Rightarrow> int \<Rightarrow> int \<Rightarrow> int \<Rightarrow> bool" where
  "loop_sinv t i j lp =
     (0 \<le> i \<and> tree_ok (seq t) (map_of (edges t)) (int (length (nodes t))) \<and>
      starts_ok (seq t) (map_of (edges t)) j \<and>
      suffixes_ok (seq t) (map_of (edges t)) j i \<and>
      links_exact (seq t) (map_of (edges t)) (link_of (nodes t)) (\<lambda>v. v = lp) \<and>
      active_ok (seq t) (map_of (edges t)) j (active t) \<and>
      pending (seq t) (map_of (edges t)) j i lp (active t))"

definition leaf_sready :: "'a SuffixTree \<Rightarrow> int \<Rightarrow> int \<Rightarrow> int \<Rightarrow> int \<Rightarrow> bool" where
  "leaf_sready t i j lp p =
     (0 \<le> i \<and> tree_ok (seq t) (map_of (edges t)) (int (length (nodes t))) \<and>
      starts_ok (seq t) (map_of (edges t)) j \<and>
      suffixes_ok (seq t) (map_of (edges t)) j i \<and>
      links_exact (seq t) (map_of (edges t)) (link_of (nodes t))
        (\<lambda>v. v = lp \<or> (v = p \<and> v \<noteq> suffix.source_node_index (active t))) \<and>
      active_ok (seq t) (map_of (edges t)) j (active t) \<and>
      pending (seq t) (map_of (edges t)) j i lp (active t) \<and>
      path (seq t) (map_of (edges t)) j i p \<and>
      map_of (edges t) (p, seq t ! nat i) = None \<and>
      (0 < p \<longrightarrow> (explicit (active t) \<and> p = suffix.source_node_index (active t)) \<or>
                  occurs_before (seq t) j i))"

definition phase_sinv :: "'a SuffixTree \<Rightarrow> int \<Rightarrow> int \<Rightarrow> bool" where
  "phase_sinv t i j =
     (0 \<le> i \<and> tree_ok (seq t) (map_of (edges t)) (int (length (nodes t))) \<and>
      starts_ok (seq t) (map_of (edges t)) j \<and>
      suffixes_ok (seq t) (map_of (edges t)) j i \<and>
      links_exact (seq t) (map_of (edges t)) (link_of (nodes t)) (\<lambda>v. False) \<and>
      active_ok (seq t) (map_of (edges t)) j (active t))"

text \<open>
  For the statements on the tree \<open>t\<close>: \<open>node_label t v a b\<close> says that the edges from
  the root to node \<open>v\<close> spell \<open>seq[a:b]\<close>. The \<open>suffix_node\<close> of \<open>v\<close> is its suffix
  link when \<open>v\<close> has a label \<open>seq[a:b]\<close> of at least one symbol inside the sequence and
  \<open>seq[a + 1:b]\<close>, the same without its first symbol, is the label of the node
  \<open>suffix_node\<close>.
\<close>

definition node_label :: "'a SuffixTree \<Rightarrow> int \<Rightarrow> int \<Rightarrow> int \<Rightarrow> bool" where
  "node_label t v a b = path (seq t) (map_of (edges t)) a b v"

definition suffix_link_ok :: "'a SuffixTree \<Rightarrow> int \<Rightarrow> bool" where
  "suffix_link_ok t v =
     (\<exists>a b. 0 \<le> a \<and> a < b \<and> b \<le> int (length (seq t)) \<and>
            node_label t v a b \<and>
            node_label t (suffix_node (nodes t ! nat v)) (a + 1) b)"

section \<open>Attributes that construction leaves alone\<close>

text \<open>
  No method assigns \<open>seq\<close>, \<open>N\<close>, \<open>case_insensitive\<close> or \<open>string\<close> after
  \<open>__init__\<close> has set the first two.
\<close>

lemma same_attrs_refl [simp]: "same_attrs t t"
  by (simp add: same_attrs_def)

lemma same_attrs_trans: "same_attrs t t1 \<Longrightarrow> same_attrs t1 t2 \<Longrightarrow> same_attrs t t2"
  by (simp add: same_attrs_def)

lemma same_attrs_upd [simp]:
  "same_attrs t (t'\<lparr>nodes := ns\<rparr>) = same_attrs t t'"
  "same_attrs t (t'\<lparr>edges := es\<rparr>) = same_attrs t t'"
  "same_attrs t (t'\<lparr>active := a\<rparr>) = same_attrs t t'"
  by (simp_all add: same_attrs_def)

lemma insert_edge_attrs: "insert_edge t e = Inr t' \<Longrightarrow> same_attrs t t'"
  by (auto simp: insert_edge_def split: sum.splits)

lemma remove_edge_attrs: "remove_edge t e = Inr t' \<Longrightarrow> same_attrs t t'"
  by (auto simp: remove_edge_def split: sum.splits)

lemma set_suffix_node_attrs: "set_suffix_node t i v = Inr t' \<Longrightarrow> same_attrs t t'"
  by (auto simp: set_suffix_node_def split: sum.splits)

lemma split_edge_attrs: "split_edge t e s = Inr (t', p) \<Longrightarrow> same_attrs t t'"
  unfolding split_edge_def Let_def
  by (auto split: sum.splits dest!: insert_edge_attrs remove_edge_attrs set_suffix_node_attrs
       simp: same_attrs_def)

lemma add_prefix_head_attrs: "add_prefix_head t i = Inr (Some (t', p)) \<Longrightarrow> same_attrs t t'"
  unfolding add_prefix_head_def Let_def
  by (auto split: sum.splits if_splits dest: split_edge_attrs)

lemma add_prefix_extend_attrs: "add_prefix_extend t i lp p = Inr t' \<Longrightarrow> same_attrs t t'"
  unfolding add_prefix_extend_def Let_def
  by (auto split: sum.splits if_splits dest!: insert_edge_attrs set_suffix_node_attrs
       simp: same_attrs_def)

lemma canonize_active_attrs: "canonize_active t = Some (Inr t') \<Longrightarrow> same_attrs t t'"
  unfolding canonize_active_def
  by (auto split: sum.splits Option.bind_splits)

lemma add_prefix_loop_rule:
  assumes run: "add_prefix_loop t i lp = Some (Inr (t', lp', p))"
      and init: "I t lp"
      and step: "\<And>t lp t1 p1 t2 t3. I t lp \<Longrightarrow> add_prefix_head t i = Inr (Some (t1, p1)) \<Longrightarrow>
                   add_prefix_extend t1 i lp p1 = Inr t2 \<Longrightarrow> canonize_active t2 = Some (Inr t3) \<Longrightarrow>
                   I t3 p1"
  shows "I t' lp' \<and> add_prefix_head t' i = Inr None \<and> p = suffix.source_node_index (active t')"
proof -
  define Q where "Q = (\<lambda>(t::'a SuffixTree) (j::int) (lp::int) (r::error + 'a SuffixTree \<times> int \<times> int).
           \<forall>t' lp' p. j = i \<longrightarrow> r = Inr (t', lp', p) \<longrightarrow> I t lp \<longrightarrow>
           I t' lp' \<and> add_prefix_head t' i = Inr None \<and> p = suffix.source_node_index (active t'))"
  have "Q t i lp (Inr (t', lp', p))"
  proof (rule add_prefix_loop.raw_induct[where P=Q, OF _ run])
    fix loop :: "'a SuffixTree \<Rightarrow> int \<Rightarrow> int \<Rightarrow> (error + 'a SuffixTree \<times> int \<times> int) option"
    fix t :: "'a SuffixTree" and j lp r
    assume IH: "\<And>t j lp r. loop t j lp = Some r \<Longrightarrow> Q t j lp r"
    assume body: "(case add_prefix_head t j of
        Inl err \<Rightarrow> Some (Inl err)
      | Inr None \<Rightarrow> Some (Inr (t, lp, suffix.source_node_index (active t)))
      | Inr (Some (t1, parent_node)) \<Rightarrow>
          (case add_prefix_extend t1 j lp parent_node of
             Inl err \<Rightarrow> Some (Inl err)
           | Inr t2 \<Rightarrow>
               Option.bind (canonize_active t2)
                 (\<lambda>r. case r of
                        Inl err \<Rightarrow> Some (Inl err)
                      | Inr t3 \<Rightarrow> loop t3 j parent_node))) = Some r"
    show "Q t j lp r"
      unfolding Q_def
    proof (intro allI impI)
      fix t' lp' p
      assume j: "j = i" and r: "r = Inr (t', lp', p)" and I: "I t lp"
      show "I t' lp' \<and> add_prefix_head t' i = Inr None \<and> p = suffix.source_node_index (active t')"
      proof (cases "add_prefix_head t j")
        case (Inl err)
        with body r show ?thesis by simp
      next
        case (Inr h)
        show ?thesis
        proof (cases h)
          case None
          with body r Inr I j show ?thesis by auto
        next
          case (Some tp)
          obtain t1 p1 where tp: "tp = (t1, p1)" by (cases tp)
          from body r Inr Some tp obtain t2 t3 where
            e: "add_prefix_extend t1 j lp p1 = Inr t2" and c: "canonize_active t2 = Some (Inr t3)"
            and l: "loop t3 j p1 = Some (Inr (t', lp', p))"
            by (auto split: sum.splits Option.bind_splits)
          have "I t3 p1" using step[OF I _ _ c, of t1 p1] e Inr Some tp j by simp
          from IH[OF l] have "Q t3 j p1 (Inr (t', lp', p))" .
          then have "I t3 p1 \<longrightarrow> I t' lp' \<and> add_prefix_head t' i = Inr None \<and>
                       p = suffix.source_node_index (active t')"
            unfolding Q_def using j by simp
          with \<open>I t3 p1\<close> show ?thesis by simp
        qed
      qed
    qed
  qed
  then have "I t lp \<longrightarrow> I t' lp' \<and> add_prefix_head t' i = Inr None \<and>
               p = suffix.source_node_index (active t')"
    unfolding Q_def by simp
  with init show ?thesis by simp
qed

lemma add_prefix_loop_attrs:
  assumes "add_prefix_loop t i lp = Some (Inr (t', lp', p))"
  shows "same_attrs t t'"
proof -
  have "same_attrs t t' \<and> add_prefix_head t' i = Inr None \<and> p = suffix.source_node_index (active t')"
  proof (rule add_prefix_loop_rule[where I="\<lambda>u l. same_attrs t u", OF assms])
    show "same_attrs t t" by simp
  next
    fix u lp t1 p1 t2 t3
    assume "same_attrs t u" "add_prefix_head u i = Inr (Some (t1, p1))"
      "add_prefix_extend t1 i lp p1 = Inr t2" "canonize_active t2 = Some (Inr t3)"
    then show "same_attrs t t3"
      using add_prefix_head_attrs[of u i t1 p1] add_prefix_extend_attrs[of t1 i lp p1 t2]
        canonize_active_attrs[of t2 t3]
      by (simp add: same_attrs_def)
  qed
  then show ?thesis by simp
qed

lemma add_prefix_link_attrs: "add_prefix_link t lp p = Inr t' \<Longrightarrow> same_attrs t t'"
  unfolding add_prefix_link_def
  by (auto split: sum.splits if_splits dest!: set_suffix_node_attrs simp: same_attrs_def)

lemma add_prefix_finish_attrs:
  assumes "add_prefix_finish t lp p = Some (Inr t')"
  shows "same_attrs t t'"
proof -
  from assms obtain t1 where l: "add_prefix_link t lp p = Inr t1"
      and c: "canonize_active t1 = Some (Inr t')"
    unfolding add_prefix_finish_def by (auto split: sum.splits)
  from add_prefix_link_attrs[OF l] canonize_active_attrs[OF c] show ?thesis
    by (rule same_attrs_trans)
qed

lemma add_prefix_attrs:
  assumes "add_prefix t i = Some (Inr t')"
  shows "same_attrs t t'"
proof -
  from assms obtain t1 lp p where l: "add_prefix_loop t i (- 1) = Some (Inr (t1, lp, p))"
      and f: "add_prefix_finish t1 lp p = Some (Inr t')"
    unfolding add_prefix_def by (auto split: sum.splits Option.bind_splits)
  from add_prefix_loop_attrs[OF l] add_prefix_finish_attrs[OF f] show ?thesis
    by (rule same_attrs_trans)
qed

lemma add_prefixes_attrs: "add_prefixes t is = Some (Inr t') \<Longrightarrow> same_attrs t t'"
proof (induction "is" arbitrary: t)
  case Nil
  then show ?case by simp
next
  case (Cons i "is")
  from Cons.prems obtain t1 where a: "add_prefix t (int i) = Some (Inr t1)"
      and r: "add_prefixes t1 is = Some (Inr t')"
    by (auto split: sum.splits Option.bind_splits)
  from add_prefix_attrs[OF a] Cons.IH[OF r] show ?case by (rule same_attrs_trans)
qed

lemma SuffixTree_init_attrs:
  "SuffixTree_init s = Some (Inr t) \<Longrightarrow>
     seq t = s \<and> N t = int (length s) - 1 \<and> case_insensitive t = None \<and> string t = None"
  unfolding SuffixTree_init_def
  by (auto dest!: add_prefixes_attrs simp: same_attrs_def new_tree_def)

section \<open>Queries on a tree built by the constructor\<close>

lemma find_substring_unset:
  "case_insensitive t = None \<Longrightarrow> substring \<noteq> [] \<Longrightarrow>
     find_substring lower t substring = Some (Inl AttributeError)"
  by (simp add: find_substring_def)

text \<open>
  C2. On every tree that the constructor returns, \<open>find_substring\<close> with a non-empty
  pattern raises \<open>AttributeError\<close> and returns no result: it reads
  \<open>self.case_insensitive\<close>, which \<open>__init__\<close> never assigns.
\<close>

theorem find_substring_attribute_error:
  assumes "SuffixTree_init s = Some (Inr t)" and "substring \<noteq> []"
  shows "find_substring lower t substring = Some (Inl AttributeError)"
  using SuffixTree_init_attrs[OF assms(1)] assms(2) by (simp add: find_substring_unset)

theorem find_substring_attribute_error_witness:
  "find_substring id
     \<lparr>seq = ''a'', N = 0, nodes = [Node, Node], edges = [((0, CHR ''a''), Edge 0 0 0 1)],
      active = Suffix 0 1 0, case_insensitive = None, string = None\<rparr> ''a''
   = Some (Inl AttributeError)"
proof -
  have built: "SuffixTree_init ''a'' =
      Some (Inr \<lparr>seq = ''a'', N = 0, nodes = [Node, Node],
                  edges = [((0, CHR ''a''), Edge 0 0 0 1)],
                  active = Suffix 0 1 0, case_insensitive = None, string = None\<rparr>)"
    by code_simp
  have "''a'' \<noteq> []" by simp
  from find_substring_attribute_error[OF built this] show ?thesis .
qed

text \<open>
  C1. The spec's own example: \<open>find_substring\<close> on the tree of \<open>abcabxabcd$\<close> with
  the substring \<open>abc\<close> should return an index; the call raises \<open>AttributeError\<close>.
\<close>

theorem find_substring_present_raises:
  "(case SuffixTree_init ''abcabxabcd$'' of
      Some (Inr t) \<Rightarrow> find_substring id t ''abc'' = Some (Inl AttributeError)
    | _ \<Rightarrow> False)"
  by code_simp

text \<open>
  C3. The spec's own example: \<open>find_substring\<close> on the tree of \<open>abcabxabcd$\<close> with
  \<open>z\<close>, which does not occur, should return \<open>-1\<close>; the call raises
  \<open>AttributeError\<close>.
\<close>

theorem find_substring_absent_raises:
  "(case SuffixTree_init ''abcabxabcd$'' of
      Some (Inr t) \<Rightarrow> find_substring id t ''z'' = Some (Inl AttributeError)
    | _ \<Rightarrow> False)"
  by code_simp

text \<open>
  C4. On every tree, \<open>find_substring\<close> with the empty pattern returns \<open>-1\<close> and does
  not raise.
\<close>

theorem find_substring_empty_pattern:
  "find_substring lower t [] = Some (Inr (- 1))"
  by (simp add: find_substring_def)

section \<open>The empty sequence\<close>

text \<open>
  C9. The constructor succeeds on the empty sequence: \<open>range(len(seq))\<close> is empty, no
  phase runs, and the tree has the root as its only node and no edge.
\<close>

theorem empty_sequence_root_only:
  "[0 ..< length ([] :: 'a list)] = [] \<and>
   (\<exists>t. SuffixTree_init ([] :: 'a list) = Some (Inr t) \<and> nodes t = [Node] \<and> edges t = [])"
  by (simp add: SuffixTree_init_def new_tree_def)

section \<open>The edge table\<close>

lemma length_update_alist:
  "length (AList.update k v al) = (if map_of al k = None then Suc (length al) else length al)"
  by (induction al) auto

lemma length_delete_alist:
  "distinct (map fst al) \<Longrightarrow> map_of al k = Some v \<Longrightarrow> Suc (length (AList.delete k al)) = length al"
proof (induction al)
  case Nil
  then show ?case by simp
next
  case (Cons p al)
  show ?case
  proof (cases "fst p = k")
    case True
    with Cons.prems have "k \<notin> fst ` set al" by auto
    then have "AList.delete k al = al" by (simp add: delete_id)
    with True show ?thesis by (cases p) (simp add: AList.delete_eq)
  next
    case False
    with Cons show ?thesis by (cases p) (auto simp: AList.delete_eq)
  qed
qed

lemma set_update_alist: "set (AList.update k v al) \<subseteq> insert (k, v) (set al)"
  by (induction al) auto

lemma set_delete_alist: "set (AList.delete k al) \<subseteq> set al"
  by (auto simp: AList.delete_eq)

lemma edge_table_ok_nodes [simp]: "edge_table_ok (t\<lparr>nodes := ns\<rparr>) = edge_table_ok t"
  by (simp add: edge_table_ok_def)

lemma edge_table_ok_delete:
  "edge_table_ok t \<Longrightarrow> edge_table_ok (t\<lparr>edges := AList.delete k (edges t)\<rparr>)"
  unfolding edge_table_ok_def using set_delete_alist[of k "edges t"]
  by (auto simp: distinct_delete)

lemma edge_table_ok_update:
  assumes "edge_table_ok t" and "py_index (seq t) (edge.first_obj_index e) = Inr c"
  shows "edge_table_ok (t\<lparr>edges := AList.update (edge.source_node_index e, c) e (edges t)\<rparr>)"
  unfolding edge_table_ok_def
  using assms set_update_alist[of "(edge.source_node_index e, c)" e "edges t"]
  by (auto simp: edge_table_ok_def distinct_update)

lemma py_index_in_range:
  "0 \<le> i \<Longrightarrow> i < int (length xs) \<Longrightarrow> py_index xs i = Inr (xs ! nat i)"
  by (simp add: py_index_def)

lemma py_slice_in_range:
  "0 \<le> a \<Longrightarrow> a \<le> b \<Longrightarrow> b \<le> int (length xs) \<Longrightarrow>
     py_slice xs a b = take (nat (b - a)) (drop (nat a) xs)"
  by (simp add: py_slice_def py_bound_def min_def nat_diff_distrib)

lemma take_drop_split:
  "take m (drop a xs) = take m (take (m + n) (drop a xs))"
  "drop m (take (m + n) (drop a xs)) = take n (drop (a + m) xs)"
  by (simp_all add: min_def drop_take add.commute)

text \<open>
  C5 as stated fails: \<open>_insert_edge\<close> is a plain dictionary assignment. On the tree of
  \<open>a\<close> the key \<open>(0, a)\<close> is present, and inserting another edge from node 0 that
  begins with \<open>a\<close> succeeds and replaces the entry.
\<close>

theorem insert_edge_existing_key_counterexample:
  "SuffixTree_init ''a'' = Some (Inr example_tree) \<and>
   dict_contains (edges example_tree) (0, CHR ''a'') \<and>
   insert_edge example_tree (Edge 0 0 0 7)
     = Inr (example_tree\<lparr>edges := [((0, CHR ''a''), Edge 0 0 0 7)]\<rparr>)"
  by code_simp

text \<open>
  C5, amended. \<open>_insert_edge\<close> never fails because of the key: whenever the edge's
  begin index is a valid index of the sequence it succeeds, the table then maps the key
  to the new edge, all other keys are unchanged, and the table grows by one entry exactly
  when the key was absent (an existing entry is replaced).
\<close>

theorem insert_edge_replaces:
  assumes "py_index (seq t) (edge.first_obj_index e) = Inr c"
  shows "\<exists>t'. insert_edge t e = Inr t' \<and>
           map_of (edges t') (edge.source_node_index e, c) = Some e \<and>
           (\<forall>k. k \<noteq> (edge.source_node_index e, c) \<longrightarrow> map_of (edges t') k = map_of (edges t) k) \<and>
           length (edges t') =
             (if dict_contains (edges t) (edge.source_node_index e, c) then length (edges t)
              else length (edges t) + 1) \<and>
           nodes t' = nodes t \<and> active t' = active t"
  using assms
  by (simp add: insert_edge_def dict_setitem_def dict_contains_def update_conv' length_update_alist)

theorem insert_edge_replaces_witness:
  "\<exists>t'. insert_edge example_tree (Edge 0 0 0 7) = Inr t' \<and>
         map_of (edges t') (0, CHR ''a'') = Some (Edge 0 0 0 7) \<and>
         length (edges t') = length (edges example_tree)"
proof -
  have h: "py_index (seq example_tree) (edge.first_obj_index (Edge 0 0 0 7)) = Inr (CHR ''a'')"
    by code_simp
  have d: "dict_contains (edges example_tree) (0, CHR ''a'')" by code_simp
  have s: "edge.source_node_index (Edge 0 0 0 7) = 0" by code_simp
  from insert_edge_replaces[OF h] d s show ?thesis by auto
qed

text \<open>
  C6. \<open>_split_edge(e, suffix)\<close> with \<open>k = suffix.length\<close>, called as \<open>_add_prefix\<close>
  calls it: \<open>e\<close> is the table's entry under its key, the suffix starts at \<open>e\<close>'s
  source node and ends inside \<open>e\<close> (\<open>0 \<le> k < e.length\<close>), \<open>e\<close>'s indices lie in
  the sequence and no edge leaves a node that does not exist yet. Then the call appends
  exactly one node, the new table maps \<open>e\<close>'s old key to an edge from \<open>e\<close>'s source
  to the new node with the first \<open>k + 1\<close> symbols of \<open>e\<close>'s label and a new key to
  the edge from the new node to \<open>e\<close>'s destination with the remaining symbols, every
  other key is unchanged and the table has one entry more. The old entry is popped first
  (\<open>t2\<close> has no entry under the old key), and invariant (1) holds after each of the
  four steps.
\<close>

theorem split_edge_replaces:
  fixes t :: "'a SuffixTree" and e0 :: edge and sfx :: suffix
  defines "k \<equiv> suffix_length sfx"
      and "new \<equiv> int (length (nodes t))"
  defines "e1 \<equiv> Edge (edge.first_obj_index e0) (edge.first_obj_index e0 + k)
                       (edge.source_node_index e0) new"
      and "e2 \<equiv> e0\<lparr>edge.first_obj_index := edge.first_obj_index e0 + (k + 1),
                      edge.source_node_index := new\<rparr>"
  assumes ok: "edge_table_ok t"
      and stored: "((edge.source_node_index e0, c), e0) \<in> set (edges t)"
      and src: "suffix.source_node_index sfx = edge.source_node_index e0"
      and k0: "0 \<le> suffix_length sfx" and kin: "suffix_length sfx < edge_length e0"
      and lo: "0 \<le> edge.first_obj_index e0"
      and hi: "edge.last_obj_index e0 < int (length (seq t))"
      and fresh: "\<forall>(key, e) \<in> set (edges t). fst key < int (length (nodes t))"
  shows "\<exists>t2 t3 t4 t5 c'.
           remove_edge (t\<lparr>nodes := nodes t @ [Node]\<rparr>) e0 = Inr t2 \<and>
           insert_edge t2 e1 = Inr t3 \<and>
           set_suffix_node t3 new (suffix.source_node_index sfx) = Inr t4 \<and>
           insert_edge t4 e2 = Inr t5 \<and>
           split_edge t e0 sfx = Inr (t5, new) \<and>
           edge_table_ok t2 \<and> edge_table_ok t3 \<and> edge_table_ok t4 \<and> edge_table_ok t5 \<and>
           map_of (edges t2) (edge.source_node_index e0, c) = None \<and>
           nodes t5 = nodes t @ [\<lparr>suffix_node = suffix.source_node_index sfx\<rparr>] \<and>
           py_index (seq t) (edge.first_obj_index e0 + (k + 1)) = Inr c' \<and>
           map_of (edges t5) =
             (map_of (edges t))((edge.source_node_index e0, c) \<mapsto> e1, (new, c') \<mapsto> e2) \<and>
           length (edges t5) = length (edges t) + 1 \<and>
           edge_label (seq t) e1 = take (nat (k + 1)) (edge_label (seq t) e0) \<and>
           edge_label (seq t) e2 = drop (nat (k + 1)) (edge_label (seq t) e0)"
proof -
  let ?key = "(edge.source_node_index e0, c)"
  let ?f = "edge.first_obj_index e0"
  let ?l = "edge.last_obj_index e0"
  have dist: "distinct (map fst (edges t))" using ok by (simp add: edge_table_ok_def)
  have c: "py_index (seq t) ?f = Inr c"
    using ok stored by (auto simp: edge_table_ok_def)
  have m0: "map_of (edges t) ?key = Some e0" using dist stored by simp
  have span: "?f + (k + 1) \<le> ?l" using kin by (simp add: edge_length_def k_def)
  define c' where "c' = seq t ! nat (?f + (k + 1))"
  have c': "py_index (seq t) (?f + (k + 1)) = Inr c'"
    using lo k0 span hi by (simp add: py_index_in_range c'_def k_def)
  define t1 where "t1 = t\<lparr>nodes := nodes t @ [Node]\<rparr>"
  define t2 where "t2 = t1\<lparr>edges := AList.delete ?key (edges t)\<rparr>"
  define t3 where "t3 = t2\<lparr>edges := AList.update ?key e1 (edges t2)\<rparr>"
  define t4 where "t4 = t3\<lparr>nodes := nodes t @ [\<lparr>suffix_node = suffix.source_node_index sfx\<rparr>]\<rparr>"
  define t5 where "t5 = t4\<lparr>edges := AList.update (new, c') e2 (edges t4)\<rparr>"
  have r2: "remove_edge t1 e0 = Inr t2"
    using c m0 by (simp add: remove_edge_def dict_pop_def t1_def t2_def)
  have e1f: "edge.first_obj_index e1 = ?f" "edge.source_node_index e1 = edge.source_node_index e0"
    "edge.last_obj_index e1 = ?f + k" "edge.dest_node_index e1 = new"
    by (simp_all add: e1_def Edge_def)
  have r3: "insert_edge t2 e1 = Inr t3"
    using c by (simp add: insert_edge_def dict_setitem_def t3_def t2_def t1_def e1f)
  have r4: "set_suffix_node t3 new (suffix.source_node_index sfx) = Inr t4"
    by (simp add: set_suffix_node_def py_index_def py_setitem_def t4_def t3_def t2_def t1_def
          new_def Node_def)
  have e2f: "edge.first_obj_index e2 = ?f + (k + 1)" "edge.source_node_index e2 = new"
    "edge.last_obj_index e2 = ?l"
    by (simp_all add: e2_def)
  have r5: "insert_edge t4 e2 = Inr t5"
    using c' by (simp add: insert_edge_def dict_setitem_def t5_def t4_def t3_def t2_def t1_def e2f)
  have e1': "Edge ?f (?f + suffix_length sfx) (suffix.source_node_index sfx)
               (int (length (nodes (t\<lparr>nodes := nodes t @ [Node]\<rparr>))) - 1) = e1"
    by (simp add: e1_def k_def src new_def)
  have e2': "e0\<lparr>edge.first_obj_index := ?f + (suffix_length sfx + 1),
                edge.source_node_index := edge.dest_node_index e1\<rparr> = e2"
    by (simp add: e2_def k_def e1f)
  have split: "split_edge t e0 sfx = Inr (t5, new)"
    unfolding split_edge_def Let_def e1' e2'
    using r2 r3 r4 r5 by (simp add: t1_def e1f)
  have ok1: "edge_table_ok t1" using ok by (simp add: t1_def)
  have ok2: "edge_table_ok t2"
    using edge_table_ok_delete[OF ok1, of ?key] by (simp add: t2_def t1_def)
  have ok3: "edge_table_ok t3"
    using edge_table_ok_update[OF ok2, of e1 c] c by (simp add: t3_def t2_def t1_def e1f)
  have ok4: "edge_table_ok t4" using ok3 by (simp add: t4_def)
  have ok5: "edge_table_ok t5"
    using edge_table_ok_update[OF ok4, of e2 c'] c'
    by (simp add: t5_def t4_def t3_def t2_def t1_def e2f)
  have gone: "map_of (edges t2) ?key = None"
    by (simp add: t2_def delete_conv')
  have nodes5: "nodes t5 = nodes t @ [\<lparr>suffix_node = suffix.source_node_index sfx\<rparr>]"
    by (simp add: t5_def t4_def)
  have map5: "map_of (edges t5) = (map_of (edges t))(?key \<mapsto> e1, (new, c') \<mapsto> e2)"
    by (simp add: t5_def t4_def t3_def t2_def update_conv' delete_conv')
  have newkey: "map_of (edges t) (new, c') = None"
  proof (cases "map_of (edges t) (new, c')")
    case None
    then show ?thesis .
  next
    case (Some e)
    then have "((new, c'), e) \<in> set (edges t)" by (rule map_of_SomeD)
    with fresh show ?thesis by (auto simp: new_def)
  qed
  have neq: "(new, c') \<noteq> ?key"
    using m0 newkey by auto
  have len2: "Suc (length (edges t2)) = length (edges t)"
    using length_delete_alist[OF dist m0] by (simp add: t2_def)
  have len3: "length (edges t3) = length (edges t)"
    using len2 gone by (simp add: t3_def length_update_alist)
  have "map_of (edges t4) (new, c') = None"
    using newkey neq by (simp add: t4_def t3_def t2_def update_conv' delete_conv')
  then have len5: "length (edges t5) = length (edges t) + 1"
    using len3 by (simp add: t5_def t4_def length_update_alist)
  have lab0: "edge_label (seq t) e0 = take (nat (?l + 1 - ?f)) (drop (nat ?f) (seq t))"
    unfolding edge_label_def using lo span hi k0
    by (subst py_slice_in_range) (simp_all add: k_def)
  have lab1: "edge_label (seq t) e1 = take (nat (k + 1)) (drop (nat ?f) (seq t))"
    unfolding edge_label_def e1f using lo span hi k0
    by (subst py_slice_in_range) (simp_all add: k_def)
  have lab2: "edge_label (seq t) e2 = take (nat (?l - ?f - k)) (drop (nat (?f + (k + 1))) (seq t))"
    unfolding edge_label_def e2f using lo span hi k0
    by (subst py_slice_in_range) (simp_all add: k_def algebra_simps)
  have nsplit: "nat (?l + 1 - ?f) = nat (k + 1) + nat (?l - ?f - k)"
    using span k0 by (simp add: k_def nat_add_distrib[symmetric])
  have nadd: "nat (?f + (k + 1)) = nat ?f + nat (k + 1)"
    using lo k0 by (simp add: k_def nat_add_distrib)
  have l1: "edge_label (seq t) e1 = take (nat (k + 1)) (edge_label (seq t) e0)"
    unfolding lab0 lab1 nsplit by (rule take_drop_split(1))
  have l2: "edge_label (seq t) e2 = drop (nat (k + 1)) (edge_label (seq t) e0)"
    unfolding lab0 lab2 nsplit nadd by (rule take_drop_split(2)[symmetric])
  show ?thesis
    using r2 r3 r4 r5 split ok2 ok3 ok4 ok5 gone nodes5 c' map5 len5 l1 l2
    unfolding t1_def by blast
qed

lemma example_split_tree_reached:
  "add_prefixes (new_tree ''aab'') [0, 1] = Some (Inr example_split_tree) \<and>
   add_prefix_head example_split_tree 2
     = map_sum id Some (split_edge example_split_tree (Edge 0 2 0 1) (Suffix 0 1 1))"
  by code_simp

theorem split_edge_replaces_witness:
  "\<exists>t5. split_edge example_split_tree (Edge 0 2 0 1) (Suffix 0 1 1) = Inr (t5, 2) \<and>
         edge_table_ok t5 \<and>
         nodes t5 = [Node, Node, \<lparr>suffix_node = 0\<rparr>] \<and>
         map_of (edges t5) (0, CHR ''a'') = Some (Edge 0 0 0 2) \<and>
         map_of (edges t5) (2, CHR ''a'') = Some (Edge 1 2 2 1) \<and>
         length (edges t5) = 2"
proof -
  have ok: "edge_table_ok example_split_tree"
    by (simp add: edge_table_ok_def example_split_tree_def Edge_def py_index_def)
  have stored: "((edge.source_node_index (Edge 0 2 0 1), CHR ''a''), Edge 0 2 0 1)
                  \<in> set (edges example_split_tree)"
    by (simp add: example_split_tree_def Edge_def)
  have src: "suffix.source_node_index (Suffix 0 1 1) = edge.source_node_index (Edge 0 2 0 1)"
    by (simp add: Suffix_def Edge_def)
  have k0: "0 \<le> suffix_length (Suffix 0 1 1)"
    and kin: "suffix_length (Suffix 0 1 1) < edge_length (Edge 0 2 0 1)"
    and lo: "0 \<le> edge.first_obj_index (Edge 0 2 0 1)"
    and hi: "edge.last_obj_index (Edge 0 2 0 1) < int (length (seq example_split_tree))"
    by (simp_all add: suffix_length_def edge_length_def Suffix_def Edge_def example_split_tree_def)
  have fresh: "\<forall>(key, e) \<in> set (edges example_split_tree).
                 fst key < int (length (nodes example_split_tree))"
    by (simp add: example_split_tree_def)
  from split_edge_replaces[OF ok stored src k0 kin lo hi fresh]
  obtain t5 c' where
    s: "split_edge example_split_tree (Edge 0 2 0 1) (Suffix 0 1 1)
          = Inr (t5, int (length (nodes example_split_tree)))"
    and o: "edge_table_ok t5"
    and n: "nodes t5 = nodes example_split_tree
              @ [\<lparr>suffix_node = suffix.source_node_index (Suffix 0 1 1)\<rparr>]"
    and c: "py_index (seq example_split_tree)
              (edge.first_obj_index (Edge 0 2 0 1) + (suffix_length (Suffix 0 1 1) + 1)) = Inr c'"
    and m: "map_of (edges t5) =
              (map_of (edges example_split_tree))
                ((edge.source_node_index (Edge 0 2 0 1), CHR ''a'') \<mapsto>
                   Edge (edge.first_obj_index (Edge 0 2 0 1))
                        (edge.first_obj_index (Edge 0 2 0 1) + suffix_length (Suffix 0 1 1))
                        (edge.source_node_index (Edge 0 2 0 1))
                        (int (length (nodes example_split_tree))),
                 (int (length (nodes example_split_tree)), c') \<mapsto>
                   (Edge 0 2 0 1)\<lparr>edge.first_obj_index :=
                        edge.first_obj_index (Edge 0 2 0 1) + (suffix_length (Suffix 0 1 1) + 1),
                      edge.source_node_index := int (length (nodes example_split_tree))\<rparr>)"
    and l: "length (edges t5) = length (edges example_split_tree) + 1"
    by blast
  have c'a: "c' = CHR ''a''"
    using c by (simp add: example_split_tree_def Edge_def Suffix_def suffix_length_def py_index_def)
  show ?thesis
    using s o n l m c'a
    by (simp add: example_split_tree_def Edge_def Suffix_def suffix_length_def Node_def)
qed

section \<open>What each step of the construction does\<close>

lemma dict_getitem_Inr: "dict_getitem d k = Inr v \<longleftrightarrow> map_of d k = Some v"
  by (simp add: dict_getitem_def split: option.splits)

lemma insert_edge_result:
  assumes "insert_edge t e = Inr t'"
  shows "\<exists>c. py_index (seq t) (edge.first_obj_index e) = Inr c \<and>
             t' = t\<lparr>edges := AList.update (edge.source_node_index e, c) e (edges t)\<rparr>"
  using assms by (auto simp: insert_edge_def dict_setitem_def split: sum.splits)

lemma remove_edge_result:
  assumes "remove_edge t e = Inr t'"
  shows "\<exists>c. py_index (seq t) (edge.first_obj_index e) = Inr c \<and>
             map_of (edges t) (edge.source_node_index e, c) \<noteq> None \<and>
             t' = t\<lparr>edges := AList.delete (edge.source_node_index e, c) (edges t)\<rparr>"
  using assms by (auto simp: remove_edge_def dict_pop_def split: sum.splits option.splits)

lemma node_update_eq [simp]: "(n::node)\<lparr>suffix_node := v\<rparr> = \<lparr>suffix_node = v\<rparr>"
  by (cases n) simp

lemma set_suffix_node_result:
  assumes "set_suffix_node t i v = Inr t'" and "0 \<le> i"
  shows "i < int (length (nodes t)) \<and> t' = t\<lparr>nodes := (nodes t)[nat i := \<lparr>suffix_node = v\<rparr>]\<rparr>"
  using assms
  by (auto simp: set_suffix_node_def py_index_def py_setitem_def split: sum.splits if_splits)

lemma split_edge_result:
  assumes "split_edge t e sfx = Inr (t', p)"
  shows "\<exists>c c'. py_index (seq t) (edge.first_obj_index e) = Inr c \<and>
           py_index (seq t) (edge.first_obj_index e + (suffix_length sfx + 1)) = Inr c' \<and>
           map_of (edges t) (edge.source_node_index e, c) \<noteq> None \<and>
           p = int (length (nodes t)) \<and>
           nodes t' = nodes t @ [\<lparr>suffix_node = suffix.source_node_index sfx\<rparr>] \<and>
           edges t' =
             AList.update (p, c')
               (e\<lparr>edge.first_obj_index := edge.first_obj_index e + (suffix_length sfx + 1),
                  edge.source_node_index := p\<rparr>)
               (AList.update (suffix.source_node_index sfx, c)
                  (Edge (edge.first_obj_index e) (edge.first_obj_index e + suffix_length sfx)
                        (suffix.source_node_index sfx) p)
                  (AList.delete (edge.source_node_index e, c) (edges t))) \<and>
           active t' = active t \<and> same_attrs t t'"
proof -
  let ?t1 = "t\<lparr>nodes := nodes t @ [Node]\<rparr>"
  let ?p = "int (length (nodes t))"
  let ?e1 = "Edge (edge.first_obj_index e) (edge.first_obj_index e + suffix_length sfx)
                  (suffix.source_node_index sfx) ?p"
  let ?e2 = "e\<lparr>edge.first_obj_index := edge.first_obj_index e + (suffix_length sfx + 1),
                 edge.source_node_index := ?p\<rparr>"
  have d1: "edge.dest_node_index ?e1 = ?p" "edge.first_obj_index ?e1 = edge.first_obj_index e"
    "edge.source_node_index ?e1 = suffix.source_node_index sfx"
    by (simp_all add: Edge_def)
  note defs = split_edge_def Let_def d1
  obtain t2 where r2: "remove_edge ?t1 e = Inr t2"
    using assms by (cases "remove_edge ?t1 e") (simp_all add: defs)
  obtain t3 where r3: "insert_edge t2 ?e1 = Inr t3"
    using assms r2 by (cases "insert_edge t2 ?e1") (simp_all add: defs)
  obtain t4 where r4: "set_suffix_node t3 ?p (suffix.source_node_index sfx) = Inr t4"
    using assms r2 r3
    by (cases "set_suffix_node t3 ?p (suffix.source_node_index sfx)") (simp_all add: defs)
  obtain t5 where r5: "insert_edge t4 ?e2 = Inr t5"
    using assms r2 r3 r4 by (cases "insert_edge t4 ?e2") (simp_all add: defs)
  have res: "t' = t5" "p = ?p"
    using assms r2 r3 r4 r5 by (simp_all add: defs)
  from remove_edge_result[OF r2] obtain c where
    c: "py_index (seq t) (edge.first_obj_index e) = Inr c"
    and m: "map_of (edges t) (edge.source_node_index e, c) \<noteq> None"
    and t2: "t2 = ?t1\<lparr>edges := AList.delete (edge.source_node_index e, c) (edges t)\<rparr>"
    by auto
  from insert_edge_result[OF r3] c
  have t3: "t3 = t2\<lparr>edges := AList.update (suffix.source_node_index sfx, c) ?e1 (edges t2)\<rparr>"
    by (auto simp: t2 d1)
  from set_suffix_node_result[OF r4]
  have t4: "t4 = t3\<lparr>nodes := (nodes t3)[nat ?p := \<lparr>suffix_node = suffix.source_node_index sfx\<rparr>]\<rparr>"
    by simp
  from insert_edge_result[OF r5] obtain c' where
    c': "py_index (seq t) (edge.first_obj_index e + (suffix_length sfx + 1)) = Inr c'"
    and t5: "t5 = t4\<lparr>edges := AList.update (?p, c') ?e2 (edges t4)\<rparr>"
    by (auto simp: t4 t3 t2)
  show ?thesis
    using c c' m res
    by (intro exI[of _ c] exI[of _ c']) (simp add: t5 t4 t3 t2 same_attrs_def Node_def)
qed

lemma add_prefix_extend_result:
  assumes "add_prefix_extend t i lp p = Inr t'"
  shows "\<exists>c. py_index (seq t) i = Inr c \<and>
           edges t' = AList.update (p, c) (Edge i (N t) p (int (length (nodes t)))) (edges t) \<and>
           nodes t' = (if lp > 0 then (nodes t @ [Node])[nat lp := \<lparr>suffix_node = p\<rparr>]
                       else nodes t @ [Node]) \<and>
           (lp > 0 \<longrightarrow> lp \<le> int (length (nodes t))) \<and>
           (if suffix.source_node_index (active t) = 0
            then active t' = (active t)\<lparr>suffix.first_obj_index :=
                                           suffix.first_obj_index (active t) + 1\<rparr>
            else \<exists>n. py_index (nodes t') (suffix.source_node_index (active t)) = Inr n \<and>
                     active t' = (active t)\<lparr>suffix.source_node_index := suffix_node n\<rparr>) \<and>
           same_attrs t t'"
proof -
  let ?t1 = "t\<lparr>nodes := nodes t @ [Node]\<rparr>"
  let ?e = "Edge i (N t) p (int (length (nodes t)))"
  have ef: "edge.first_obj_index ?e = i" "edge.source_node_index ?e = p"
    by (simp_all add: Edge_def)
  note defs = add_prefix_extend_def Let_def
  obtain t2 where r2: "insert_edge ?t1 ?e = Inr t2"
    using assms by (cases "insert_edge ?t1 ?e") (simp_all add: defs)
  obtain t3 where r3: "(if lp > 0 then set_suffix_node t2 lp p else Inr t2) = Inr t3"
    using assms r2
    by (cases "if lp > 0 then set_suffix_node t2 lp p else Inr t2") (simp_all add: defs)
  have r4: "(if suffix.source_node_index (active t3) = 0 then
               Inr (t3\<lparr>active := (active t3)\<lparr>suffix.first_obj_index :=
                                       suffix.first_obj_index (active t3) + 1\<rparr>\<rparr>)
             else
               (case py_index (nodes t3) (suffix.source_node_index (active t3)) of
                  Inl err \<Rightarrow> Inl err
                | Inr n \<Rightarrow>
                    Inr (t3\<lparr>active := (active t3)\<lparr>suffix.source_node_index := suffix_node n\<rparr>\<rparr>)))
             = Inr t'"
    using assms r2 r3 by (simp add: defs)
  from insert_edge_result[OF r2] obtain c where
    c: "py_index (seq t) i = Inr c"
    and t2: "t2 = ?t1\<lparr>edges := AList.update (p, c) ?e (edges t)\<rparr>"
    by (auto simp: ef)
  have t3: "t3 = (if lp > 0 then t2\<lparr>nodes := (nodes t2)[nat lp := \<lparr>suffix_node = p\<rparr>]\<rparr> else t2)"
    and lp: "lp > 0 \<longrightarrow> lp < int (length (nodes t2))"
    using r3 set_suffix_node_result[of t2 lp p t3] by (auto split: if_splits)
  show ?thesis
  proof (cases "suffix.source_node_index (active t3) = 0")
    case True
    with r4 have "t' = t3\<lparr>active := (active t3)\<lparr>suffix.first_obj_index :=
                                       suffix.first_obj_index (active t3) + 1\<rparr>\<rparr>" by simp
    with True c lp show ?thesis
      by (intro exI[of _ c]) (auto simp: t3 t2 same_attrs_def)
  next
    case False
    with r4 obtain n where n: "py_index (nodes t3) (suffix.source_node_index (active t3)) = Inr n"
      and t': "t' = t3\<lparr>active := (active t3)\<lparr>suffix.source_node_index := suffix_node n\<rparr>\<rparr>"
      by (auto split: sum.splits)
    with False c lp show ?thesis
      by (intro exI[of _ c]) (auto simp: t3 t2 same_attrs_def)
  qed
qed

lemma add_prefix_link_result:
  assumes "add_prefix_link t lp p = Inr t'"
  shows "edges t' = edges t \<and>
         nodes t' = (if lp > 0 then (nodes t)[nat lp := \<lparr>suffix_node = p\<rparr>] else nodes t) \<and>
         (lp > 0 \<longrightarrow> lp < int (length (nodes t))) \<and>
         active t' = (active t)\<lparr>suffix.last_obj_index := suffix.last_obj_index (active t) + 1\<rparr> \<and>
         same_attrs t t'"
  using assms set_suffix_node_result[of t lp p]
  unfolding add_prefix_link_def
  by (auto split: sum.splits if_splits simp: same_attrs_def)

lemma canonize_active_result:
  assumes "canonize_active t = Some (Inr t')"
  shows "\<exists>s'. canonize_suffix t (active t) = Some (Inr s') \<and> t' = t\<lparr>active := s'\<rparr>"
  using assms unfolding canonize_active_def
  by (auto split: sum.splits Option.bind_splits)

lemma add_prefix_head_explicit:
  assumes "explicit (active t)"
  shows "add_prefix_head t i =
     (case py_index (seq t) i of
        Inl err \<Rightarrow> Inl err
      | Inr c \<Rightarrow>
          if map_of (edges t) (suffix.source_node_index (active t), c) \<noteq> None then Inr None
          else Inr (Some (t, suffix.source_node_index (active t))))"
  using assms by (simp add: add_prefix_head_def Let_def dict_contains_def split: sum.splits)

lemma add_prefix_head_implicit:
  assumes "\<not> explicit (active t)"
      and "py_index (seq t) (suffix.first_obj_index (active t)) = Inr c"
      and "map_of (edges t) (suffix.source_node_index (active t), c) = Some e"
      and "py_index (seq t) (edge.first_obj_index e + suffix_length (active t) + 1) = Inr x"
      and "py_index (seq t) i = Inr y"
  shows "add_prefix_head t i =
     (if x = y then Inr None
      else (case split_edge t e (active t) of Inl err \<Rightarrow> Inl err | Inr r \<Rightarrow> Inr (Some r)))"
  using assms by (simp add: add_prefix_head_def Let_def dict_getitem_def)

lemma add_prefix_head_implicit_ok:
  assumes "\<not> explicit (active t)" and "add_prefix_head t i = Inr r"
  shows "\<exists>c e x y. py_index (seq t) (suffix.first_obj_index (active t)) = Inr c \<and>
           map_of (edges t) (suffix.source_node_index (active t), c) = Some e \<and>
           py_index (seq t) (edge.first_obj_index e + suffix_length (active t) + 1) = Inr x \<and>
           py_index (seq t) i = Inr y"
proof -
  note d = add_prefix_head_def Let_def
  obtain c where c: "py_index (seq t) (suffix.first_obj_index (active t)) = Inr c"
    using assms by (cases "py_index (seq t) (suffix.first_obj_index (active t))") (simp_all add: d)
  obtain e where e: "dict_getitem (edges t) (suffix.source_node_index (active t), c) = Inr e"
    using assms c
    by (cases "dict_getitem (edges t) (suffix.source_node_index (active t), c)") (simp_all add: d)
  obtain x where x: "py_index (seq t) (edge.first_obj_index e + suffix_length (active t) + 1) = Inr x"
    using assms c e
    by (cases "py_index (seq t) (edge.first_obj_index e + suffix_length (active t) + 1)")
       (simp_all add: d)
  obtain y where y: "py_index (seq t) i = Inr y"
    using assms c e x by (cases "py_index (seq t) i") (simp_all add: d)
  from c e x y show ?thesis by (auto simp: dict_getitem_Inr)
qed

lemma add_prefix_head_cases:
  assumes "add_prefix_head t i = Inr (Some (t1, p))"
  obtains (at_node) c where "explicit (active t)" "py_index (seq t) i = Inr c"
      "map_of (edges t) (suffix.source_node_index (active t), c) = None"
      "t1 = t" "p = suffix.source_node_index (active t)"
  | (in_edge) c e x y where "\<not> explicit (active t)"
      "py_index (seq t) (suffix.first_obj_index (active t)) = Inr c"
      "map_of (edges t) (suffix.source_node_index (active t), c) = Some e"
      "py_index (seq t) (edge.first_obj_index e + suffix_length (active t) + 1) = Inr x"
      "py_index (seq t) i = Inr y" "x \<noteq> y"
      "split_edge t e (active t) = Inr (t1, p)"
proof (cases "explicit (active t)")
  case True
  note h = assms[unfolded add_prefix_head_explicit[OF True]]
  obtain c where c: "py_index (seq t) i = Inr c"
    using h by (cases "py_index (seq t) i") simp_all
  from h c have "map_of (edges t) (suffix.source_node_index (active t), c) = None"
      "t1 = t" "p = suffix.source_node_index (active t)"
    by (auto split: if_splits)
  with True c show ?thesis by (rule at_node)
next
  case False
  from add_prefix_head_implicit_ok[OF False assms] obtain c e x y where
    c: "py_index (seq t) (suffix.first_obj_index (active t)) = Inr c"
    and e: "map_of (edges t) (suffix.source_node_index (active t), c) = Some e"
    and x: "py_index (seq t) (edge.first_obj_index e + suffix_length (active t) + 1) = Inr x"
    and y: "py_index (seq t) i = Inr y" by blast
  note h = assms[unfolded add_prefix_head_implicit[OF False c e x y]]
  from h have ne: "x \<noteq> y" by (simp split: if_splits)
  with h have "split_edge t e (active t) = Inr (t1, p)"
    by (cases "split_edge t e (active t)") simp_all
  with False c e x y ne show ?thesis by (rule in_edge)
qed

lemma add_prefix_head_break:
  assumes "add_prefix_head t i = Inr None"
  shows "(explicit (active t) \<and>
            (\<exists>c. py_index (seq t) i = Inr c \<and>
                 map_of (edges t) (suffix.source_node_index (active t), c) \<noteq> None)) \<or>
         (\<not> explicit (active t) \<and>
            (\<exists>c e x. py_index (seq t) (suffix.first_obj_index (active t)) = Inr c \<and>
                 map_of (edges t) (suffix.source_node_index (active t), c) = Some e \<and>
                 py_index (seq t) (edge.first_obj_index e + suffix_length (active t) + 1) = Inr x \<and>
                 py_index (seq t) i = Inr x))"
proof (cases "explicit (active t)")
  case True
  note h = assms[unfolded add_prefix_head_explicit[OF True]]
  obtain c where c: "py_index (seq t) i = Inr c"
    using h by (cases "py_index (seq t) i") simp_all
  from h c have "map_of (edges t) (suffix.source_node_index (active t), c) \<noteq> None"
    by (simp split: if_splits)
  with True c show ?thesis by blast
next
  case False
  from add_prefix_head_implicit_ok[OF False assms] obtain c e x y where
    c: "py_index (seq t) (suffix.first_obj_index (active t)) = Inr c"
    and e: "map_of (edges t) (suffix.source_node_index (active t), c) = Some e"
    and x: "py_index (seq t) (edge.first_obj_index e + suffix_length (active t) + 1) = Inr x"
    and y: "py_index (seq t) i = Inr y" by blast
  note h = assms[unfolded add_prefix_head_implicit[OF False c e x y]]
  have "x = y" using h by (cases "split_edge t e (active t)") (simp_all split: if_splits)
  with False c e x y show ?thesis by blast
qed

section \<open>Canonicalization\<close>

lemma canonize_suffix_rule:
  assumes run: "canonize_suffix t s = Some (Inr s')"
      and init: "I s"
      and step: "\<And>s c e. I s \<Longrightarrow> \<not> explicit s \<Longrightarrow>
                   py_index (seq t) (suffix.first_obj_index s) = Inr c \<Longrightarrow>
                   map_of (edges t) (suffix.source_node_index s, c) = Some e \<Longrightarrow>
                   edge_length e \<le> suffix_length s \<Longrightarrow>
                   I ((s\<lparr>suffix.first_obj_index := suffix.first_obj_index s + (edge_length e + 1)\<rparr>)
                         \<lparr>suffix.source_node_index := edge.dest_node_index e\<rparr>)"
  shows "I s' \<and> canonical t s'"
proof -
  define Q where "Q = (\<lambda>(u::'a SuffixTree) (s::suffix) (r::error + suffix).
           \<forall>s'. u = t \<longrightarrow> r = Inr s' \<longrightarrow> I s \<longrightarrow> I s' \<and> canonical t s')"
  have "Q t s (Inr s')"
  proof (rule canonize_suffix.raw_induct[where P=Q, OF _ run])
    fix canon :: "'a SuffixTree \<Rightarrow> suffix \<Rightarrow> (error + suffix) option"
    fix u :: "'a SuffixTree" and s r
    assume IH: "\<And>u s r. canon u s = Some r \<Longrightarrow> Q u s r"
    assume body: "(if \<not> explicit s then
        (case py_index (seq u) (suffix.first_obj_index s) of
           Inl err \<Rightarrow> Some (Inl err)
         | Inr c \<Rightarrow>
        (case dict_getitem (edges u) (suffix.source_node_index s, c) of
           Inl err \<Rightarrow> Some (Inl err)
         | Inr e \<Rightarrow>
             if edge_length e \<le> suffix_length s then
               canon u
                 ((s\<lparr>suffix.first_obj_index := suffix.first_obj_index s + (edge_length e + 1)\<rparr>)
                    \<lparr>suffix.source_node_index := edge.dest_node_index e\<rparr>)
             else Some (Inr s)))
      else Some (Inr s)) = Some r"
    show "Q u s r"
      unfolding Q_def
    proof (intro allI impI)
      fix s'
      assume u: "u = t" and r: "r = Inr s'" and I: "I s"
      show "I s' \<and> canonical t s'"
      proof (cases "explicit s")
        case True
        with body r I show ?thesis by (simp add: canonical_def)
      next
        case False
        from body r False obtain c where c: "py_index (seq u) (suffix.first_obj_index s) = Inr c"
          by (auto split: sum.splits)
        from body r False c obtain e where e: "dict_getitem (edges u) (suffix.source_node_index s, c) = Inr e"
          by (auto split: sum.splits)
        show ?thesis
        proof (cases "edge_length e \<le> suffix_length s")
          case True
          let ?s1 = "(s\<lparr>suffix.first_obj_index := suffix.first_obj_index s + (edge_length e + 1)\<rparr>)
                         \<lparr>suffix.source_node_index := edge.dest_node_index e\<rparr>"
          from body r False c e True have "canon u ?s1 = Some (Inr s')" by simp
          from IH[OF this] have "I ?s1 \<longrightarrow> I s' \<and> canonical t s'"
            unfolding Q_def using u by simp
          moreover have "I ?s1"
            using step[OF I False, of c e] c e True u by (simp add: dict_getitem_Inr)
          ultimately show ?thesis by simp
        next
          case nd: False
          with body r False c e have "s' = s" by simp
          with I c e nd u show ?thesis by (auto simp: canonical_def)
        qed
      qed
    qed
  qed
  with init show ?thesis unfolding Q_def by simp
qed

lemma canonize_suffix_total:
  assumes ok: "spans_ok t"
  shows "\<exists>r n. canonize_suffix t s = Some r \<and> canonize_depth t s = Some n \<and>
               n \<le> nat (suffix_length s + 1)"
proof (induction "nat (suffix_length s + 1)" arbitrary: s rule: less_induct)
  case less
  show ?case
  proof (cases "explicit s")
    case True
    then show ?thesis
      by (subst canonize_suffix.simps, subst canonize_depth.simps) simp
  next
    case False
    then have len0: "0 \<le> suffix_length s" by (simp add: explicit_def suffix_length_def)
    show ?thesis
    proof (cases "py_index (seq t) (suffix.first_obj_index s)")
      case (Inl err)
      with False show ?thesis
        by (subst canonize_suffix.simps, subst canonize_depth.simps) simp
    next
      case (Inr c)
      show ?thesis
      proof (cases "dict_getitem (edges t) (suffix.source_node_index s, c)")
        case (Inl err)
        with False Inr show ?thesis
          by (subst canonize_suffix.simps, subst canonize_depth.simps) simp
      next
        case e: (Inr e)
        then have "((suffix.source_node_index s, c), e) \<in> set (edges t)"
          by (simp add: dict_getitem_Inr map_of_SomeD)
        with ok have pos: "0 \<le> edge_length e"
          by (auto simp: spans_ok_def edge_length_def)
        show ?thesis
        proof (cases "edge_length e \<le> suffix_length s")
          case True
          let ?s1 = "(s\<lparr>suffix.first_obj_index := suffix.first_obj_index s + (edge_length e + 1)\<rparr>)
                         \<lparr>suffix.source_node_index := edge.dest_node_index e\<rparr>"
          have l1: "suffix_length ?s1 = suffix_length s - (edge_length e + 1)"
            by (simp add: suffix_length_def)
          then have "nat (suffix_length ?s1 + 1) < nat (suffix_length s + 1)"
            using pos len0 by simp
          from less[OF this] obtain r n where
            r: "canonize_suffix t ?s1 = Some r" and n: "canonize_depth t ?s1 = Some n"
            and b: "n \<le> nat (suffix_length ?s1 + 1)" by blast
          have "Suc n \<le> nat (suffix_length s + 1)" using b l1 pos len0 by simp
          with False Inr e True r n show ?thesis
            by (subst canonize_suffix.simps, subst canonize_depth.simps) simp
        next
          case False
          with \<open>\<not> explicit s\<close> Inr e show ?thesis
            by (subst canonize_suffix.simps, subst canonize_depth.simps) simp
        qed
      qed
    qed
  qed
qed

lemma spans_ok_edges: "edges t' = edges t \<Longrightarrow> spans_ok t' = spans_ok t"
  by (simp add: spans_ok_def)

lemma spans_ok_update:
  assumes "\<forall>(k, e) \<in> set al. edge.first_obj_index e \<le> edge.last_obj_index e"
      and "edge.first_obj_index e \<le> edge.last_obj_index e"
  shows "\<forall>(k, e) \<in> set (AList.update key e al). edge.first_obj_index e \<le> edge.last_obj_index e"
  using assms set_update_alist[of key e al] by auto

lemma spans_ok_delete:
  assumes "\<forall>(k, e) \<in> set al. edge.first_obj_index e \<le> edge.last_obj_index e"
  shows "\<forall>(k, e) \<in> set (AList.delete key al). edge.first_obj_index e \<le> edge.last_obj_index e"
  using assms set_delete_alist[of key al] by auto

lemma py_index_bound: "py_index xs i = Inr c \<Longrightarrow> i < int (length xs)"
  by (auto simp: py_index_def split: if_splits)

lemma canonical_edge:
  assumes "canonical t s" and "\<not> explicit s"
      and "py_index (seq t) (suffix.first_obj_index s) = Inr c"
      and "map_of (edges t) (suffix.source_node_index s, c) = Some e"
  shows "suffix_length s < edge_length e"
  using assms by (auto simp: canonical_def dict_getitem_Inr)

lemma head_spans_ok:
  assumes h: "add_prefix_head t i = Inr (Some (t1, p))"
      and ok: "spans_ok t" and can: "canonical t (active t)"
  shows "spans_ok t1"
  using h
proof (cases rule: add_prefix_head_cases)
  case (at_node c)
  with ok show ?thesis by simp
next
  case (in_edge c e x y)
  let ?k = "suffix_length (active t)"
  have k0: "0 \<le> ?k" using in_edge(1) by (simp add: explicit_def suffix_length_def)
  have kin: "?k < edge_length e" using canonical_edge[OF can in_edge(1,2,3)] .
  from split_edge_result[OF in_edge(7)] obtain c0 c' where
    ed: "edges t1 =
             AList.update (p, c')
               (e\<lparr>edge.first_obj_index := edge.first_obj_index e + (?k + 1),
                  edge.source_node_index := p\<rparr>)
               (AList.update (suffix.source_node_index (active t), c0)
                  (Edge (edge.first_obj_index e) (edge.first_obj_index e + ?k)
                        (suffix.source_node_index (active t)) p)
                  (AList.delete (edge.source_node_index e, c0) (edges t)))"
    by blast
  have a: "\<forall>(k, e) \<in> set (edges t). edge.first_obj_index e \<le> edge.last_obj_index e"
    using ok by (simp add: spans_ok_def)
  show ?thesis
    unfolding spans_ok_def ed
    by (intro spans_ok_update spans_ok_delete a)
       (use k0 kin in \<open>simp_all add: Edge_def edge_length_def\<close>)
qed

lemma extend_spans_ok:
  assumes x: "add_prefix_extend t i lp p = Inr t'"
      and ok: "spans_ok t" and n: "N t = int (length (seq t)) - 1"
  shows "spans_ok t'"
proof -
  from add_prefix_extend_result[OF x] obtain c where
    c: "py_index (seq t) i = Inr c"
    and ed: "edges t' = AList.update (p, c) (Edge i (N t) p (int (length (nodes t)))) (edges t)"
    by blast
  have a: "\<forall>(k, e) \<in> set (edges t). edge.first_obj_index e \<le> edge.last_obj_index e"
    using ok by (simp add: spans_ok_def)
  show ?thesis
    unfolding spans_ok_def ed
    by (intro spans_ok_update a) (use py_index_bound[OF c] n in \<open>simp add: Edge_def\<close>)
qed

lemma canonical_cong:
  "seq t' = seq t \<Longrightarrow> edges t' = edges t \<Longrightarrow> canonical t' s = canonical t s"
  by (simp add: canonical_def)

lemma canonize_active_inv:
  assumes c: "canonize_active t = Some (Inr t')"
      and n: "N t = int (length (seq t)) - 1" and ok: "spans_ok t"
  shows "loop_inv t'"
proof -
  from canonize_active_result[OF c] obtain s' where
    r: "canonize_suffix t (active t) = Some (Inr s')" and t': "t' = t\<lparr>active := s'\<rparr>" by blast
  from canonize_suffix_rule[where I="\<lambda>_. True", OF r] have "canonical t s'" by simp
  then show ?thesis
    using n ok by (simp add: loop_inv_def t' spans_ok_def canonical_def)
qed

lemma loop_step_inv:
  assumes inv: "loop_inv t"
      and h: "add_prefix_head t i = Inr (Some (t1, p))"
      and x: "add_prefix_extend t1 i lp p = Inr t2"
  shows "N t2 = int (length (seq t2)) - 1 \<and> spans_ok t2"
proof -
  from inv have n: "N t = int (length (seq t)) - 1" and ok: "spans_ok t"
    and can: "canonical t (active t)" by (simp_all add: loop_inv_def)
  have a1: "same_attrs t t1" using h by (rule add_prefix_head_attrs)
  have a2: "same_attrs t1 t2" using x by (rule add_prefix_extend_attrs)
  have ok1: "spans_ok t1" using head_spans_ok[OF h ok can] .
  have n1: "N t1 = int (length (seq t1)) - 1" using n a1 by (simp add: same_attrs_def)
  have "spans_ok t2" using extend_spans_ok[OF x ok1 n1] .
  moreover have "N t2 = int (length (seq t2)) - 1" using n1 a2 by (simp add: same_attrs_def)
  ultimately show ?thesis by simp
qed

lemma link_inv:
  assumes inv: "loop_inv t" and l: "add_prefix_link t lp p = Inr t2"
  shows "N t2 = int (length (seq t2)) - 1 \<and> spans_ok t2"
  using inv add_prefix_link_result[OF l]
  by (simp add: loop_inv_def same_attrs_def spans_ok_def)

lemma add_prefix_inv:
  assumes a: "add_prefix t i = Some (Inr t')" and inv: "loop_inv t"
  shows "loop_inv t'"
proof -
  from a obtain t1 lp p where l: "add_prefix_loop t i (- 1) = Some (Inr (t1, lp, p))"
      and f: "add_prefix_finish t1 lp p = Some (Inr t')"
    unfolding add_prefix_def by (auto split: sum.splits Option.bind_splits)
  have "loop_inv t1 \<and> add_prefix_head t1 i = Inr None \<and> p = suffix.source_node_index (active t1)"
  proof (rule add_prefix_loop_rule[where I="\<lambda>u l. loop_inv u", OF l inv])
    fix u lp u1 p1 u2 u3
    assume "loop_inv u" "add_prefix_head u i = Inr (Some (u1, p1))"
      "add_prefix_extend u1 i lp p1 = Inr u2" "canonize_active u2 = Some (Inr u3)"
    then show "loop_inv u3"
      using loop_step_inv[of u i u1 p1 lp u2] canonize_active_inv[of u2 u3] by simp
  qed
  then have i1: "loop_inv t1" by simp
  from f obtain t2 where k: "add_prefix_link t1 lp p = Inr t2"
      and c: "canonize_active t2 = Some (Inr t')"
    unfolding add_prefix_finish_def by (auto split: sum.splits)
  from link_inv[OF i1 k] canonize_active_inv[OF c] show ?thesis by simp
qed

lemma add_prefixes_inv:
  "add_prefixes t is = Some (Inr t') \<Longrightarrow> loop_inv t \<Longrightarrow> loop_inv t'"
proof (induction "is" arbitrary: t)
  case Nil
  then show ?case by simp
next
  case (Cons i "is")
  from Cons.prems(1) obtain t1 where a: "add_prefix t (int i) = Some (Inr t1)"
      and r: "add_prefixes t1 is = Some (Inr t')"
    by (auto split: sum.splits Option.bind_splits)
  from Cons.IH[OF r add_prefix_inv[OF a Cons.prems(2)]] show ?case .
qed

lemma new_tree_inv: "loop_inv (new_tree s)"
  by (simp add: loop_inv_def new_tree_def spans_ok_def canonical_def explicit_def Suffix_def)

lemma loop_state_inv: "loop_state s i t lp \<Longrightarrow> loop_inv t"
proof (induction rule: loop_state.induct)
  case (first_pass i t)
  then show ?case using add_prefixes_inv[OF _ new_tree_inv] by blast
next
  case (next_pass i t lp t1 p t2 t3)
  then show ?case
    using loop_step_inv[of t "int i" t1 p lp t2] canonize_active_inv[of t2 t3] by simp
qed

lemma canonize_call_spans: "canonize_call s t \<Longrightarrow> spans_ok t"
proof (induction rule: canonize_call.induct)
  case (in_loop i t lp t1 p t2)
  then show ?case using loop_step_inv[OF loop_state_inv] by blast
next
  case (after_loop i t lp t2)
  then show ?case using link_inv[OF loop_state_inv] by blast
qed

text \<open>
  C10. On every tree on which the construction calls \<open>_canonize_suffix(self.active)\<close>
  the call comes back (with a suffix, or with an exception of a failed lookup), after at
  most as many recursive calls as the active window has symbols
  (\<open>last_obj_index - first_obj_index + 1\<close>); when it returns a suffix, the suffix is
  explicit or the edge it lies on is longer than the suffix. Each descent takes a whole
  edge, at least one symbol, from the front of the window, because every edge of the
  table has \<open>first_obj_index \<le> last_obj_index\<close>.
\<close>

theorem canonize_suffix_terminates:
  assumes "canonize_call s t"
  shows "\<exists>r n. canonize_suffix t (active t) = Some r \<and>
               canonize_depth t (active t) = Some n \<and>
               n \<le> nat (suffix_length (active t) + 1) \<and>
               (\<forall>a. r = Inr a \<longrightarrow> canonical t a)"
proof -
  from canonize_suffix_total[OF canonize_call_spans[OF assms], of "active t"]
  obtain r n where r: "canonize_suffix t (active t) = Some r"
    and n: "canonize_depth t (active t) = Some n" "n \<le> nat (suffix_length (active t) + 1)"
    by blast
  have "canonical t a" if "r = Inr a" for a
    using canonize_suffix_rule[where I="\<lambda>_. True", of t "active t" a] r that by simp
  with r n show ?thesis by blast
qed

theorem canonize_suffix_terminates_witness:
  "canonize_call ''aaba'' example_canonize_tree \<and>
   canonize_depth example_canonize_tree (active example_canonize_tree) = Some 1 \<and>
   suffix_length (active example_canonize_tree) + 1 = 1 \<and>
   (\<exists>r n. canonize_suffix example_canonize_tree (active example_canonize_tree) = Some r \<and>
          canonize_depth example_canonize_tree (active example_canonize_tree) = Some n \<and>
          n \<le> nat (suffix_length (active example_canonize_tree) + 1) \<and>
          (\<forall>a. r = Inr a \<longrightarrow> canonical example_canonize_tree a))"
proof -
  have p: "add_prefixes (new_tree ''aaba'') [0 ..< 3] = Some (Inr example_phase_tree)"
    by code_simp
  have ls: "loop_state ''aaba'' 3 example_phase_tree (- 1)"
    by (rule loop_state.first_pass[OF p]) simp
  have h: "add_prefix_head example_phase_tree (int 3) = Inr None"
    by code_simp
  have l: "add_prefix_link example_phase_tree (- 1)
             (suffix.source_node_index (active example_phase_tree)) = Inr example_canonize_tree"
    by code_simp
  have cc: "canonize_call ''aaba'' example_canonize_tree"
    by (rule canonize_call.after_loop[OF ls h l])
  have d: "canonize_depth example_canonize_tree (active example_canonize_tree) = Some 1"
    by code_simp
  have w: "suffix_length (active example_canonize_tree) + 1 = 1"
    by code_simp
  from cc d w canonize_suffix_terminates[OF cc] show ?thesis by blast
qed

section \<open>The shape of the tree during the construction\<close>

lemma link_of_range: "0 \<le> link_of ns v \<Longrightarrow> 0 \<le> v \<and> v < int (length ns)"
  by (simp add: link_of_def split: if_splits)

lemma link_of_append_Node [simp]: "link_of (ns @ [Node]) = link_of ns"
  by (rule ext) (auto simp: link_of_def Node_def nth_append)

lemma link_of_append:
  "link_of (ns @ [\<lparr>suffix_node = w\<rparr>]) = (link_of ns)(int (length ns) := w)"
  by (rule ext) (auto simp: link_of_def nth_append)

lemma link_of_update:
  "0 \<le> u \<Longrightarrow> u < int (length ns) \<Longrightarrow>
     link_of (ns[nat u := \<lparr>suffix_node = w\<rparr>]) = (link_of ns)(u := w)"
  by (rule ext) (auto simp: link_of_def nth_list_update)

lemma link_of_py_index:
  "0 \<le> v \<Longrightarrow> py_index ns v = Inr x \<Longrightarrow> suffix_node x = link_of ns v"
  by (auto simp: py_index_def link_of_def split: if_splits)

lemma branch_range: "branch (link_of ns) v \<Longrightarrow> ns \<noteq> [] \<Longrightarrow> 0 \<le> v \<and> v < int (length ns)"
  using link_of_range[of ns v] by (auto simp: branch_def)

lemma branch_depth: "links_ok d lk \<Longrightarrow> branch lk v \<Longrightarrow> 0 \<le> d v"
  by (fastforce simp: links_ok_def branch_def)

lemma all_update:
  "\<forall>x \<in> set al. P x \<Longrightarrow> P (k, v) \<Longrightarrow> \<forall>x \<in> set (AList.update k v al). P x"
  using set_update_alist[of k v al] by auto

lemma all_delete: "\<forall>x \<in> set al. P x \<Longrightarrow> \<forall>x \<in> set (AList.delete k al). P x"
  using set_delete_alist[of k al] by auto

lemma length_delete_less:
  "map_of al k \<noteq> None \<Longrightarrow> length (AList.delete k al) < length al"
  by (induction al) (auto simp: AList.delete_eq less_Suc_eq_le)

lemma length_update_le: "length (AList.update k v al) \<le> Suc (length al)"
  by (simp add: length_update_alist)


lemma adepth_jpos: "adepth d a = suffix.last_obj_index a + 1 - jpos d a"
  by (simp add: adepth_def jpos_def suffix_length_def)

lemma ginv_edge:
  assumes "ginv d t" and "map_of (edges t) k = Some e"
  shows "edge_ok d (link_of (nodes t)) (int (length (nodes t))) (N t) (jpos d (active t)) (k, e)"
  using assms map_of_SomeD[of "edges t" k e] by (auto simp: ginv_def)

text \<open>
  \<open>_canonize_suffix\<close> keeps the shape: it only descends along edges into branching
  nodes, because a leaf edge is longer than any active suffix, and the descent leaves the
  start of the suffix where it was.
\<close>

lemma canonize_ginv:
  assumes c: "canonize_active t = Some (Inr t')" and g: "ginv d t"
  shows "ginv d t' \<and> canonical t' (active t') \<and> nodes t' = nodes t \<and> edges t' = edges t \<and>
         same_attrs t t' \<and>
         suffix.last_obj_index (active t') = suffix.last_obj_index (active t) \<and>
         jpos d (active t') = jpos d (active t) \<and>
         (explicit (active t) \<longrightarrow> active t' = active t) \<and>
         (- 1 \<le> suffix_length (active t) \<longrightarrow> - 1 \<le> suffix_length (active t'))"
proof -
  let ?lk = "link_of (nodes t)"
  let ?a = "active t"
  from canonize_active_result[OF c] obtain s' where
    r: "canonize_suffix t ?a = Some (Inr s')" and t': "t' = t\<lparr>active := s'\<rparr>" by blast
  define I where "I = (\<lambda>s. branch ?lk (suffix.source_node_index s) \<and>
      suffix.last_obj_index s = suffix.last_obj_index ?a \<and> jpos d s = jpos d ?a \<and>
      (explicit ?a \<longrightarrow> s = ?a) \<and> (- 1 \<le> suffix_length ?a \<longrightarrow> - 1 \<le> suffix_length s))"
  have top: "suffix.last_obj_index ?a \<le> N t" using g by (simp add: ginv_def)
  have "I s' \<and> canonical t s'"
  proof (rule canonize_suffix_rule[where I=I, OF r])
    show "I ?a" using g by (simp add: I_def ginv_def)
  next
    fix s c e
    assume Is: "I s" and ne: "\<not> explicit s"
      and "py_index (seq t) (suffix.first_obj_index s) = Inr c"
      and m: "map_of (edges t) (suffix.source_node_index s, c) = Some e"
      and le: "edge_length e \<le> suffix_length s"
    let ?s1 = "(s\<lparr>suffix.first_obj_index := suffix.first_obj_index s + (edge_length e + 1)\<rparr>)
                  \<lparr>suffix.source_node_index := edge.dest_node_index e\<rparr>"
    from ginv_edge[OF g m] have eo: "edge_ok d ?lk (int (length (nodes t))) (N t) (jpos d ?a)
                                       ((suffix.source_node_index s, c), e)" .
    have src: "suffix.source_node_index s = edge.source_node_index e"
      using eo by (simp add: edge_ok_def)
    have altT: "branch ?lk (edge.dest_node_index e) \<Longrightarrow>
                d (edge.dest_node_index e) = d (edge.source_node_index e) + (edge_length e + 1)"
      using eo by (simp add: edge_ok_def)
    have altF: "\<not> branch ?lk (edge.dest_node_index e) \<Longrightarrow>
                edge.last_obj_index e = N t \<and>
                edge.first_obj_index e - d (edge.source_node_index e) < jpos d ?a"
      using eo by (simp add: edge_ok_def)
    have br: "branch ?lk (edge.dest_node_index e)"
    proof (rule ccontr)
      assume nb: "\<not> branch ?lk (edge.dest_node_index e)"
      from altF[OF nb] have "edge.last_obj_index e = N t"
        and "edge.first_obj_index e - d (edge.source_node_index e) < jpos d ?a" by simp_all
      moreover have "jpos d ?a = suffix.first_obj_index s - d (edge.source_node_index e)"
        using Is src by (simp add: I_def jpos_def)
      moreover have "suffix.last_obj_index s \<le> N t" using Is top by (simp add: I_def)
      ultimately show False using le by (simp add: edge_length_def suffix_length_def)
    qed
    from altT[OF br] have dd:
      "d (edge.dest_node_index e) = d (edge.source_node_index e) + (edge_length e + 1)" .
    have "explicit ?a \<longrightarrow> ?s1 = ?a" using Is ne by (auto simp: I_def)
    moreover have "jpos d ?s1 = jpos d ?a" using Is dd src by (simp add: I_def jpos_def)
    moreover have "- 1 \<le> suffix_length ?s1" using le by (simp add: suffix_length_def)
    ultimately show "I ?s1" using Is br by (simp add: I_def)
  qed
  then have Is': "I s'" and can: "canonical t s'" by simp_all
  have "ginv d t'"
    using g Is' by (clarsimp simp: ginv_def t' I_def)
  moreover have "canonical t' (active t')" using can by (simp add: t' canonical_def)
  ultimately show ?thesis using Is' by (simp add: t' I_def same_attrs_def)
qed


lemma edge_ok_transfer:
  assumes ok: "edge_ok d lk n hi j x" and n: "n \<le> n'" and j: "j \<le> j'"
      and b: "\<And>v. v < n \<Longrightarrow> branch lk' v = branch lk v"
      and d: "\<And>v. v < n \<Longrightarrow> d' v = d v"
      and r: "\<And>v. branch lk v \<Longrightarrow> v < n"
  shows "edge_ok d' lk' n' hi j' x"
proof -
  let ?e = "snd x"
  from ok have k: "fst (fst x) = edge.source_node_index ?e"
    and bs: "branch lk (edge.source_node_index ?e)"
    and dn: "edge.dest_node_index ?e < n"
    and sp: "edge.first_obj_index ?e \<le> edge.last_obj_index ?e"
    by (simp_all add: edge_ok_def)
  from ok have altT: "branch lk (edge.dest_node_index ?e) \<Longrightarrow>
      d (edge.dest_node_index ?e) = d (edge.source_node_index ?e) + (edge_length ?e + 1)"
    by (simp add: edge_ok_def)
  from ok have altF: "\<not> branch lk (edge.dest_node_index ?e) \<Longrightarrow>
      edge.last_obj_index ?e = hi \<and>
      edge.first_obj_index ?e - d (edge.source_node_index ?e) < j"
    by (simp add: edge_ok_def)
  have sn: "edge.source_node_index ?e < n" using r[OF bs] .
  have bs': "branch lk' (edge.source_node_index ?e)" using b[OF sn] bs by simp
  have dn': "edge.dest_node_index ?e < n'" using dn n by simp
  have ds: "d' (edge.source_node_index ?e) = d (edge.source_node_index ?e)" using d[OF sn] .
  have dd: "d' (edge.dest_node_index ?e) = d (edge.dest_node_index ?e)" using d[OF dn] .
  have bd: "branch lk' (edge.dest_node_index ?e) = branch lk (edge.dest_node_index ?e)"
    using b[OF dn] .
  show ?thesis
  proof (cases "branch lk (edge.dest_node_index ?e)")
    case True
    with altT k bs' dn' sp ds dd bd show ?thesis by (simp add: edge_ok_def)
  next
    case False
    with altF j k bs' dn' sp ds dd bd show ?thesis by (simp add: edge_ok_def)
  qed
qed

lemma branch_set:
  assumes "0 \<le> lk u" and "0 < u" and "branch lk w"
  shows "branch (lk(u := w)) v = branch lk v"
  using assms by (auto simp: branch_def)

lemma links_ok_set:
  assumes ok: "links_ok d lk" and u: "0 \<le> lk u" "0 < u" and w: "branch lk w" and dw: "d w < d u"
  shows "links_ok d (lk(u := w))"
proof -
  have beq: "\<And>v. branch (lk(u := w)) v = branch lk v" using branch_set[OF u w] .
  have d0: "d 0 = 0" using ok by (simp add: links_ok_def)
  have old: "\<And>v. 0 < v \<Longrightarrow> 0 \<le> lk v \<Longrightarrow> branch lk (lk v) \<and> 0 \<le> d (lk v) \<and> d (lk v) < d v"
    using ok by (simp add: links_ok_def)
  have "branch (lk(u := w)) ((lk(u := w)) v) \<and> 0 \<le> d ((lk(u := w)) v) \<and> d ((lk(u := w)) v) < d v"
    if v: "0 < v" "0 \<le> (lk(u := w)) v" for v
  proof (cases "v = u")
    case True
    with w dw branch_depth[OF ok w] show ?thesis by (simp add: beq)
  next
    case False
    with v old[of v] show ?thesis by (simp add: beq)
  qed
  with d0 show ?thesis unfolding links_ok_def by blast
qed

lemma branch_new:
  assumes r: "\<And>v. branch lk v \<Longrightarrow> v < n" and s: "branch lk s"
  shows "branch (lk(n := s)) v = (v = n \<or> branch lk v)"
proof -
  have "s < n" using r[OF s] .
  moreover have "0 \<le> s" using s by (auto simp: branch_def)
  ultimately show ?thesis by (auto simp: branch_def)
qed

lemma links_ok_new:
  assumes ok: "links_ok d lk" and r: "\<And>v. branch lk v \<Longrightarrow> v < n"
      and s: "branch lk s" and m: "0 < m"
  shows "links_ok (d(n := d s + m)) (lk(n := s))"
proof -
  let ?d = "d(n := d s + m)" and ?lk = "lk(n := s)"
  have beq: "\<And>v. branch ?lk v = (v = n \<or> branch lk v)" using branch_new[OF r s] .
  have sn: "s < n" using r[OF s] .
  have s0: "0 \<le> s" using s by (auto simp: branch_def)
  have d0: "?d 0 = 0" using ok sn s0 by (simp add: links_ok_def)
  have old: "\<And>v. 0 < v \<Longrightarrow> 0 \<le> lk v \<Longrightarrow> branch lk (lk v) \<and> 0 \<le> d (lk v) \<and> d (lk v) < d v"
    using ok by (simp add: links_ok_def)
  have "branch ?lk (?lk v) \<and> 0 \<le> ?d (?lk v) \<and> ?d (?lk v) < ?d v"
    if v: "0 < v" "0 \<le> ?lk v" for v
  proof (cases "v = n")
    case True
    with s sn m branch_depth[OF ok s] show ?thesis by (simp add: beq)
  next
    case False
    with v have l: "0 \<le> lk v" by simp
    from old[OF v(1) l] have b: "branch lk (lk v)" and dd: "0 \<le> d (lk v)" "d (lk v) < d v"
      by simp_all
    have "lk v < n" using r[OF b] .
    with False b dd show ?thesis by (simp add: beq)
  qed
  with d0 show ?thesis unfolding links_ok_def by blast
qed

lemma ginv_range: "ginv d t \<Longrightarrow> branch (link_of (nodes t)) v \<Longrightarrow> v < int (length (nodes t))"
  using branch_range[of "nodes t" v] by (simp add: ginv_def)

lemma link_of_outside: "link_of ns (int (length ns)) = - 1"
  by (simp add: link_of_def)

lemma link_of_extend:
  "lp > 0 \<Longrightarrow> lp < int (length ns) \<Longrightarrow>
     link_of ((ns @ [Node])[nat lp := \<lparr>suffix_node = p\<rparr>]) = (link_of ns)(lp := p)"
  using link_of_update[of lp "ns @ [Node]" p] by simp

lemma map_of_update_same: "map_of (AList.update k v al) k = Some v"
  by (simp add: update_conv')

lemma ginvD:
  assumes "ginv d t"
  shows "nodes t \<noteq> []" and "N t = int (length (seq t)) - 1"
    and "links_ok d (link_of (nodes t))"
    and "\<forall>x \<in> set (edges t).
           edge_ok d (link_of (nodes t)) (int (length (nodes t))) (N t) (jpos d (active t)) x"
    and "branch (link_of (nodes t)) (suffix.source_node_index (active t))"
    and "suffix.last_obj_index (active t) \<le> N t"
    and "length (edges t) + 1 \<le> length (nodes t)"
  using assms unfolding ginv_def by blast+

lemma ginvI:
  assumes "nodes t \<noteq> []" and "N t = int (length (seq t)) - 1"
    and "links_ok d (link_of (nodes t))"
    and "\<forall>x \<in> set (edges t).
           edge_ok d (link_of (nodes t)) (int (length (nodes t))) (N t) (jpos d (active t)) x"
    and "branch (link_of (nodes t)) (suffix.source_node_index (active t))"
    and "suffix.last_obj_index (active t) \<le> N t"
    and "length (edges t) + 1 \<le> length (nodes t)"
  shows "ginv d t"
  using assms unfolding ginv_def by blast


text \<open>
  The second half of a pass of the loop: the new leaf is hung under \<open>parent_node\<close>, the
  pending suffix link is set, and the active point moves on to the next suffix, by one
  symbol at the root and along the suffix link elsewhere.
\<close>

lemma extend_ginv:
  assumes x: "add_prefix_extend t1 i lp p = Inr t2"
      and g: "ginv d t1"
      and la: "suffix.last_obj_index (active t1) = i - 1"
      and k1: "- 1 \<le> suffix_length (active t1)"
      and bp: "branch (link_of (nodes t1)) p"
      and dp: "d p = adepth d (active t1)"
      and ps: "suffix_length (active t1) = - 1 \<Longrightarrow> p = suffix.source_node_index (active t1)"
      and lpa: "0 < lp \<Longrightarrow> 0 \<le> link_of (nodes t1) lp \<and> d p < d lp"
      and c1: "int (length (nodes t1)) \<le> 2 * jpos d (active t1) + 1"
      and c2: "suffix_length (active t1) = - 1 \<Longrightarrow> 1 \<le> jpos d (active t1) \<Longrightarrow>
                 int (length (nodes t1)) \<le> 2 * jpos d (active t1)"
  shows "loop_ginv d t2 i p \<and> jpos d (active t1) < jpos d (active t2)"
proof -
  let ?a = "active t1"
  let ?s = "suffix.source_node_index ?a"
  let ?lk = "link_of (nodes t1)"
  let ?n = "int (length (nodes t1))"
  let ?j = "jpos d ?a"
  let ?k = "suffix_length ?a"
  from add_prefix_extend_result[OF x] obtain c where
    c: "py_index (seq t1) i = Inr c"
    and ed: "edges t2 = AList.update (p, c) (Edge i (N t1) p ?n) (edges t1)"
    and nd: "nodes t2 = (if lp > 0 then (nodes t1 @ [Node])[nat lp := \<lparr>suffix_node = p\<rparr>]
                         else nodes t1 @ [Node])"
    and act: "if ?s = 0
              then active t2 = ?a\<lparr>suffix.first_obj_index := suffix.first_obj_index ?a + 1\<rparr>
              else \<exists>n. py_index (nodes t2) ?s = Inr n \<and>
                       active t2 = ?a\<lparr>suffix.source_node_index := suffix_node n\<rparr>"
    and at: "same_attrs t1 t2"
    by blast
  note ne = ginvD(1)[OF g] and Neq = ginvD(2)[OF g] and lo = ginvD(3)[OF g]
    and eds = ginvD(4)[OF g] and bs = ginvD(5)[OF g] and top = ginvD(6)[OF g]
    and cnt = ginvD(7)[OF g]
  have rng: "\<And>v. branch ?lk v \<Longrightarrow> v < ?n" using ginv_range[OF g] .
  have dpj: "d p = i - ?j" using dp la by (simp add: adepth_jpos)
  have dps: "d ?s \<le> d p" using dp k1 by (simp add: adepth_def)
  define lk2 where "lk2 = (if lp > 0 then ?lk(lp := p) else ?lk)"
  have lk2: "link_of (nodes t2) = lk2"
  proof (cases "lp > 0")
    case True
    with lpa have "0 \<le> ?lk lp" by simp
    then have "lp < ?n" using link_of_range[of "nodes t1" lp] by simp
    with True show ?thesis using link_of_extend[of lp "nodes t1" p] by (simp add: nd lk2_def)
  next
    case False
    then show ?thesis by (simp add: nd lk2_def)
  qed
  have beq: "branch lk2 v = branch ?lk v" for v
    using branch_set[of ?lk lp p v] lpa bp by (simp add: lk2_def)
  have lo2: "links_ok d lk2"
    using links_ok_set[OF lo _ _ bp, of lp] lpa lo by (simp add: lk2_def)
  have len2: "int (length (nodes t2)) = ?n + 1" by (simp add: nd)
  have lks: "lk2 ?s = ?lk ?s" using lpa dps by (auto simp: lk2_def)
  have lkp: "lk2 p = ?lk p" using lpa by (auto simp: lk2_def)
  define a2 where "a2 = active t2"
  have A: "branch ?lk (suffix.source_node_index a2) \<and> suffix.last_obj_index a2 = i - 1 \<and>
           ?j < jpos d a2 \<and> suffix_length a2 = (if ?s = 0 then ?k - 1 else ?k) \<and>
           (?s = 0 \<longrightarrow> jpos d a2 = ?j + 1 \<and> suffix.source_node_index a2 = 0)"
  proof (cases "?s = 0")
    case True
    with act have "a2 = ?a\<lparr>suffix.first_obj_index := suffix.first_obj_index ?a + 1\<rparr>"
      by (simp add: a2_def)
    with True bs la show ?thesis by (simp add: jpos_def suffix_length_def)
  next
    case False
    with act obtain nn where nn: "py_index (nodes t2) ?s = Inr nn"
      and a2: "a2 = ?a\<lparr>suffix.source_node_index := suffix_node nn\<rparr>"
      by (auto simp: a2_def)
    from False bs have s0: "0 < ?s" and ls: "0 \<le> ?lk ?s" by (auto simp: branch_def)
    have "suffix_node nn = ?lk ?s"
      using link_of_py_index[OF _ nn] s0 lk2 lks by simp
    with a2 have a2': "a2 = ?a\<lparr>suffix.source_node_index := ?lk ?s\<rparr>" by simp
    from lo s0 ls have "branch ?lk (?lk ?s)" and "d (?lk ?s) < d ?s"
      by (simp_all add: links_ok_def)
    with False la show ?thesis by (simp add: a2' jpos_def suffix_length_def)
  qed
  then have A1: "branch ?lk (suffix.source_node_index a2)"
    and A2: "suffix.last_obj_index a2 = i - 1"
    and A3: "?j < jpos d a2"
    and A4: "suffix_length a2 = (if ?s = 0 then ?k - 1 else ?k)"
    and A5: "?s = 0 \<Longrightarrow> jpos d a2 = ?j + 1"
    and A6: "?s = 0 \<Longrightarrow> suffix.source_node_index a2 = 0"
    by simp_all
  have iN: "i \<le> N t1" using py_index_bound[OF c] Neq by simp
  have nbn: "\<not> branch lk2 ?n" using rng[of ?n] by (auto simp: beq)
  have new: "edge_ok d lk2 (?n + 1) (N t1) (jpos d a2) ((p, c), Edge i (N t1) p ?n)"
    using bp iN nbn A3 dpj by (simp add: edge_ok_def Edge_def beq)
  have old: "\<forall>x \<in> set (edges t1). edge_ok d lk2 (?n + 1) (N t1) (jpos d a2) x"
  proof
    fix x assume "x \<in> set (edges t1)"
    with eds have "edge_ok d ?lk ?n (N t1) ?j x" by simp
    then show "edge_ok d lk2 (?n + 1) (N t1) (jpos d a2) x"
      by (rule edge_ok_transfer) (use A3 beq rng in simp_all)
  qed
  have all2: "\<forall>x \<in> set (edges t2). edge_ok d lk2 (?n + 1) (N t1) (jpos d a2) x"
    unfolding ed using old new by (rule all_update)
  have cnt2: "length (edges t2) + 1 \<le> length (nodes t2)"
    using length_update_le[of "(p, c)" "Edge i (N t1) p ?n" "edges t1"] cnt len2
    by (simp add: ed)
  have sa: "seq t2 = seq t1" "N t2 = N t1" using at by (simp_all add: same_attrs_def)
  have g2: "ginv d t2"
  proof (rule ginvI)
    show "nodes t2 \<noteq> []" using len2 by auto
    show "N t2 = int (length (seq t2)) - 1" using Neq sa by simp
    show "links_ok d (link_of (nodes t2))" using lo2 by (simp add: lk2)
    show "\<forall>x \<in> set (edges t2). edge_ok d (link_of (nodes t2)) (int (length (nodes t2)))
             (N t2) (jpos d (active t2)) x"
      using all2 by (simp add: lk2 len2 sa a2_def)
    show "branch (link_of (nodes t2)) (suffix.source_node_index (active t2))"
      using A1 by (simp add: lk2 beq a2_def)
    show "suffix.last_obj_index (active t2) \<le> N t2" using A2 iN sa by (simp add: a2_def)
    show "length (edges t2) + 1 \<le> length (nodes t2)" using cnt2 .
  qed
  have L3: "0 < p \<longrightarrow> 0 \<le> lk2 p \<and> adepth d a2 < d p"
    using bp A2 A3 dpj by (auto simp: lkp branch_def adepth_jpos)
  have L4: "- 1 \<le> suffix_length a2 \<or>
         (suffix_length a2 = - 2 \<and> suffix.source_node_index a2 = 0 \<and> p = 0 \<and>
          (\<exists>c. py_index (seq t2) i = Inr c \<and> map_of (edges t2) (0, c) \<noteq> None))"
  proof (cases "?s = 0 \<and> ?k = - 1")
    case True
    then have p0: "p = 0" using ps by simp
    have "map_of (edges t2) (0, c) \<noteq> None"
      unfolding ed p0 by (simp add: map_of_update_same)
    with True c p0 A4 A6 sa show ?thesis by auto
  next
    case False
    with k1 A4 show ?thesis by auto
  qed
  have L5: "int (length (nodes t2)) \<le> 2 * jpos d a2" using len2 c1 A3 by simp
  have L6: "suffix_length a2 = - 2 \<and> 2 \<le> jpos d a2 \<longrightarrow> int (length (nodes t2)) < 2 * jpos d a2"
  proof (intro impI)
    assume h: "suffix_length a2 = - 2 \<and> 2 \<le> jpos d a2"
    with A4 k1 have s0: "?s = 0" and km: "?k = - 1" by (auto split: if_splits)
    from A5[OF s0] h have "1 \<le> ?j" and j2: "jpos d a2 = ?j + 1" by simp_all
    from c2[OF km this(1)] j2 len2 show "int (length (nodes t2)) < 2 * jpos d a2" by simp
  qed
  have "loop_ginv d t2 i p"
    unfolding loop_ginv_def lk2 a2_def[symmetric]
    using g2 A2 L3 L4 L5 L6 by blast
  with A3 show ?thesis by (simp add: a2_def)
qed


lemma leaf_ready_extend:
  assumes "leaf_ready d t1 i lp p" and "add_prefix_extend t1 i lp p = Inr t2"
  shows "loop_ginv d t2 i p \<and> jpos d (active t1) < jpos d (active t2)"
  using assms(1) unfolding leaf_ready_def
  by (intro extend_ginv[OF assms(2)]) blast+

lemma loop_ginvD:
  assumes "loop_ginv d t i lp"
  shows "ginv d t" and "suffix.last_obj_index (active t) = i - 1"
    and "0 < lp \<Longrightarrow> 0 \<le> link_of (nodes t) lp \<and> adepth d (active t) < d lp"
    and "- 1 \<le> suffix_length (active t) \<or>
         (suffix_length (active t) = - 2 \<and> suffix.source_node_index (active t) = 0 \<and> lp = 0 \<and>
          (\<exists>c. py_index (seq t) i = Inr c \<and> map_of (edges t) (0, c) \<noteq> None))"
    and "int (length (nodes t)) \<le> 2 * jpos d (active t) \<or> pristine d t"
    and "suffix_length (active t) = - 2 \<Longrightarrow> 2 \<le> jpos d (active t) \<Longrightarrow>
         int (length (nodes t)) < 2 * jpos d (active t)"
  using assms unfolding loop_ginv_def by blast+

lemma head_at_node:
  assumes inv: "loop_ginv d t i lp"
      and ex: "explicit (active t)" and c: "py_index (seq t) i = Inr c"
      and m: "map_of (edges t) (suffix.source_node_index (active t), c) = None"
  shows "leaf_ready d t i lp (suffix.source_node_index (active t))"
proof -
  note g = loop_ginvD(1)[OF inv] and la = loop_ginvD(2)[OF inv] and lpa = loop_ginvD(3)[OF inv]
    and sp = loop_ginvD(4)[OF inv] and cn = loop_ginvD(5)[OF inv]
  have k1: "- 1 \<le> suffix_length (active t)" using sp c m by auto
  have km: "suffix_length (active t) = - 1"
    using k1 ex by (simp add: explicit_def suffix_length_def)
  have dp: "d (suffix.source_node_index (active t)) = adepth d (active t)"
    using km by (simp add: adepth_def)
  have c1: "int (length (nodes t)) \<le> 2 * jpos d (active t) + 1"
    using cn by (auto simp: pristine_def)
  have c2: "1 \<le> jpos d (active t) \<longrightarrow> int (length (nodes t)) \<le> 2 * jpos d (active t)"
    using cn by (auto simp: pristine_def)
  show ?thesis
    unfolding leaf_ready_def
    using g la k1 ginvD(5)[OF g] dp lpa c1 c2 by simp
qed

text \<open>
  The first half of a pass when the active point lies inside an edge: \<open>_split_edge\<close>
  adds a branching node whose depth is that of the active point.
\<close>

lemma head_in_edge:
  assumes inv: "loop_ginv d t i lp" and can: "canonical t (active t)"
      and ne: "\<not> explicit (active t)"
      and cf: "py_index (seq t) (suffix.first_obj_index (active t)) = Inr c"
      and m: "map_of (edges t) (suffix.source_node_index (active t), c) = Some e"
      and sp: "split_edge t e (active t) = Inr (t1, p)"
  shows "\<exists>d'. leaf_ready d' t1 i lp p \<and> jpos d' (active t1) = jpos d (active t)"
proof -
  let ?a = "active t"
  let ?s = "suffix.source_node_index ?a"
  let ?lk = "link_of (nodes t)"
  let ?n = "int (length (nodes t))"
  let ?j = "jpos d ?a"
  let ?k = "suffix_length ?a"
  note g = loop_ginvD(1)[OF inv] and la = loop_ginvD(2)[OF inv] and lpa = loop_ginvD(3)[OF inv]
    and cn = loop_ginvD(5)[OF inv]
  note nne = ginvD(1)[OF g] and Neq = ginvD(2)[OF g] and lo = ginvD(3)[OF g]
    and eds = ginvD(4)[OF g] and bs = ginvD(5)[OF g] and top = ginvD(6)[OF g]
    and cnt = ginvD(7)[OF g]
  have rng: "\<And>v. branch ?lk v \<Longrightarrow> v < ?n" using ginv_range[OF g] .
  have k0: "0 \<le> ?k" using ne by (simp add: explicit_def suffix_length_def)
  have kin: "?k < edge_length e" using canonical_edge[OF can ne cf m] .
  from split_edge_result[OF sp] obtain c0 c' where
    m0: "map_of (edges t) (edge.source_node_index e, c0) \<noteq> None"
    and p: "p = ?n"
    and nd: "nodes t1 = nodes t @ [\<lparr>suffix_node = ?s\<rparr>]"
    and ed: "edges t1 =
             AList.update (p, c')
               (e\<lparr>edge.first_obj_index := edge.first_obj_index e + (?k + 1),
                  edge.source_node_index := p\<rparr>)
               (AList.update (?s, c0)
                  (Edge (edge.first_obj_index e) (edge.first_obj_index e + ?k) ?s p)
                  (AList.delete (edge.source_node_index e, c0) (edges t)))"
    and ac: "active t1 = ?a" and at: "same_attrs t t1"
    by blast
  have eo: "edge_ok d ?lk ?n (N t) ?j ((?s, c), e)" using ginv_edge[OF g m] .
  have src: "?s = edge.source_node_index e" using eo by (simp add: edge_ok_def)
  have dn: "edge.dest_node_index e < ?n" using eo by (simp add: edge_ok_def)
  have altT: "branch ?lk (edge.dest_node_index e) \<Longrightarrow>
      d (edge.dest_node_index e) = d ?s + (edge_length e + 1)"
    using eo by (simp add: edge_ok_def)
  have altF: "\<not> branch ?lk (edge.dest_node_index e) \<Longrightarrow>
      edge.last_obj_index e = N t \<and> edge.first_obj_index e - d ?s < ?j"
    using eo by (simp add: edge_ok_def)
  have sn: "?s < ?n" using rng[OF bs] .
  define d' where "d' = d(?n := d ?s + (?k + 1))"
  define lk1 where "lk1 = ?lk(?n := ?s)"
  have lk1: "link_of (nodes t1) = lk1" by (simp add: nd lk1_def link_of_append)
  have len1: "int (length (nodes t1)) = ?n + 1" by (simp add: nd)
  have beq: "branch lk1 v = (v = ?n \<or> branch ?lk v)" for v
    unfolding lk1_def using branch_new[OF rng bs] by simp
  have lo1: "links_ok d' lk1"
    unfolding d'_def lk1_def using links_ok_new[OF lo rng bs, of "?k + 1"] k0 by simp
  have dold: "v < ?n \<Longrightarrow> d' v = d v" for v by (simp add: d'_def)
  have dnew: "d' ?n = d ?s + (?k + 1)" by (simp add: d'_def)
  have ds: "d' ?s = d ?s" using dold[OF sn] .
  have jp: "jpos d' ?a = ?j" using ds by (simp add: jpos_def)
  have e1: "edge_ok d' lk1 (?n + 1) (N t) ?j
              ((?s, c0), Edge (edge.first_obj_index e) (edge.first_obj_index e + ?k) ?s ?n)"
    using bs k0 ds dnew by (simp add: edge_ok_def Edge_def edge_length_def beq)
  have e2: "edge_ok d' lk1 (?n + 1) (N t) ?j
              ((?n, c'), e\<lparr>edge.first_obj_index := edge.first_obj_index e + (?k + 1),
                           edge.source_node_index := ?n\<rparr>)"
  proof (cases "branch ?lk (edge.dest_node_index e)")
    case True
    with altT[OF True] dn kin dold[OF dn] dnew show ?thesis
      by (simp add: edge_ok_def edge_length_def beq)
  next
    case False
    with altF[OF False] dn kin dnew show ?thesis
      by (simp add: edge_ok_def edge_length_def beq)
  qed
  have old: "\<forall>x \<in> set (edges t). edge_ok d' lk1 (?n + 1) (N t) ?j x"
  proof
    fix x assume "x \<in> set (edges t)"
    with eds have "edge_ok d ?lk ?n (N t) ?j x" by simp
    then show "edge_ok d' lk1 (?n + 1) (N t) ?j x"
      by (rule edge_ok_transfer) (use beq rng dold in auto)
  qed
  have all1: "\<forall>x \<in> set (edges t1). edge_ok d' lk1 (?n + 1) (N t) ?j x"
    unfolding ed p
    by (intro all_update all_delete old e1 e2)
  have cnt1: "length (edges t1) + 1 \<le> length (nodes t1)"
  proof -
    let ?del = "AList.delete (edge.source_node_index e, c0) (edges t)"
    have "length ?del < length (edges t)" using length_delete_less[OF m0] .
    moreover have "length (edges t1) \<le> Suc (Suc (length ?del))"
      unfolding ed by (simp add: length_update_alist)
    ultimately show ?thesis using cnt by (simp add: nd)
  qed
  have sa: "seq t1 = seq t" "N t1 = N t" using at by (simp_all add: same_attrs_def)
  have g1: "ginv d' t1"
  proof (rule ginvI)
    show "nodes t1 \<noteq> []" by (simp add: nd)
    show "N t1 = int (length (seq t1)) - 1" using Neq sa by simp
    show "links_ok d' (link_of (nodes t1))" using lo1 by (simp add: lk1)
    show "\<forall>x \<in> set (edges t1). edge_ok d' (link_of (nodes t1)) (int (length (nodes t1)))
             (N t1) (jpos d' (active t1)) x"
      using all1 by (simp add: lk1 len1 sa ac jp)
    show "branch (link_of (nodes t1)) (suffix.source_node_index (active t1))"
      using bs by (simp add: lk1 beq ac)
    show "suffix.last_obj_index (active t1) \<le> N t1" using top by (simp add: sa ac)
    show "length (edges t1) + 1 \<le> length (nodes t1)" using cnt1 .
  qed
  have dpa: "d' p = adepth d' (active t1)"
    using dnew ds by (simp add: p ac adepth_def)
  have lp1: "0 < lp \<longrightarrow> 0 \<le> link_of (nodes t1) lp \<and> d' p < d' lp"
  proof
    assume l: "0 < lp"
    from lpa[OF l] have ll: "0 \<le> ?lk lp" and ad: "adepth d ?a < d lp" by simp_all
    have lpn: "lp < ?n" using link_of_range[OF ll] by simp
    have "d' p = adepth d ?a" using dnew by (simp add: p adepth_def)
    with ad dold[OF lpn] ll lpn show "0 \<le> link_of (nodes t1) lp \<and> d' p < d' lp"
      by (simp add: lk1 lk1_def)
  qed
  have np: "\<not> pristine d t" using k0 by (simp add: pristine_def)
  with cn have c1: "int (length (nodes t1)) \<le> 2 * jpos d' (active t1) + 1"
    by (simp add: len1 ac jp)
  have "leaf_ready d' t1 i lp p"
    unfolding leaf_ready_def
    using g1 la k0 dpa lp1 c1 by (simp add: ac lk1 beq p)
  moreover have "jpos d' (active t1) = jpos d (active t)" using jp by (simp add: ac)
  ultimately show ?thesis by blast
qed

lemma head_ginv:
  assumes h: "add_prefix_head t i = Inr (Some (t1, p))"
      and inv: "loop_ginv d t i lp" and can: "canonical t (active t)"
  shows "\<exists>d'. leaf_ready d' t1 i lp p \<and> jpos d' (active t1) = jpos d (active t)"
  using h
proof (cases rule: add_prefix_head_cases)
  case (at_node c)
  with head_at_node[OF inv at_node(1,2,3)] show ?thesis by auto
next
  case (in_edge c e x y)
  from head_in_edge[OF inv can in_edge(1,2,3,7)] show ?thesis .
qed


lemma phase_ginvD:
  assumes "phase_ginv d t n"
  shows "ginv d t" and "suffix.last_obj_index (active t) = n - 1"
    and "- 1 \<le> suffix_length (active t)"
    and "int (length (nodes t)) \<le> 2 * jpos d (active t) \<or> pristine d t"
    and "adepth d (active t) \<le> 0 \<Longrightarrow> 2 \<le> jpos d (active t) \<Longrightarrow>
         int (length (nodes t)) < 2 * jpos d (active t)"
  using assms unfolding phase_ginv_def by blast+

lemma pristine_explicit: "pristine d t \<Longrightarrow> explicit (active t)"
  by (simp add: pristine_def explicit_def suffix_length_def)

lemma pristine_cong:
  "nodes t' = nodes t \<Longrightarrow> edges t' = edges t \<Longrightarrow> active t' = active t \<Longrightarrow>
     pristine d t' = pristine d t"
  by (simp add: pristine_def)

lemma canonize_loop_ginv:
  assumes c: "canonize_active t = Some (Inr t')" and inv: "loop_ginv d t i lp"
  shows "loop_ginv d t' i lp \<and> canonical t' (active t') \<and>
         jpos d (active t') = jpos d (active t)"
proof -
  note g = loop_ginvD(1)[OF inv] and la = loop_ginvD(2)[OF inv] and lpa = loop_ginvD(3)[OF inv]
    and sp = loop_ginvD(4)[OF inv] and cn = loop_ginvD(5)[OF inv] and c6 = loop_ginvD(6)[OF inv]
  from canonize_ginv[OF c g] have g': "ginv d t'" and can: "canonical t' (active t')"
    and nd: "nodes t' = nodes t" and ed: "edges t' = edges t" and at: "same_attrs t t'"
    and la': "suffix.last_obj_index (active t') = suffix.last_obj_index (active t)"
    and jp: "jpos d (active t') = jpos d (active t)"
    and ex: "explicit (active t) \<Longrightarrow> active t' = active t"
    and k1: "- 1 \<le> suffix_length (active t) \<Longrightarrow> - 1 \<le> suffix_length (active t')"
    by simp_all
  have ad: "adepth d (active t') = adepth d (active t)" using la' jp by (simp add: adepth_jpos)
  have low: "suffix_length (active t) < - 1 \<Longrightarrow> active t' = active t"
    using ex by (simp add: explicit_def suffix_length_def)
  have sq: "seq t' = seq t" using at by (simp add: same_attrs_def)
  have L3: "0 < lp \<longrightarrow> 0 \<le> link_of (nodes t') lp \<and> adepth d (active t') < d lp"
    using lpa by (simp add: nd ad)
  have L4: "- 1 \<le> suffix_length (active t') \<or>
         (suffix_length (active t') = - 2 \<and> suffix.source_node_index (active t') = 0 \<and> lp = 0 \<and>
          (\<exists>c. py_index (seq t') i = Inr c \<and> map_of (edges t') (0, c) \<noteq> None))"
  proof (cases "- 1 \<le> suffix_length (active t)")
    case True
    with k1 show ?thesis by simp
  next
    case False
    then have "active t' = active t" using low by simp
    with sp False show ?thesis by (simp add: sq ed)
  qed
  have L5: "int (length (nodes t')) \<le> 2 * jpos d (active t') \<or> pristine d t'"
  proof (cases "pristine d t")
    case True
    from ex[OF pristine_explicit[OF True]] True show ?thesis
      using pristine_cong[OF nd ed, of d] by simp
  next
    case False
    with cn show ?thesis by (simp add: nd jp)
  qed
  have L6: "suffix_length (active t') = - 2 \<and> 2 \<le> jpos d (active t') \<longrightarrow>
              int (length (nodes t')) < 2 * jpos d (active t')"
  proof (intro impI)
    assume h: "suffix_length (active t') = - 2 \<and> 2 \<le> jpos d (active t')"
    have "\<not> - 1 \<le> suffix_length (active t)" using k1 h by auto
    then have "active t' = active t" using low by simp
    with h c6 show "int (length (nodes t')) < 2 * jpos d (active t')" by (simp add: nd)
  qed
  have "loop_ginv d t' i lp"
    unfolding loop_ginv_def using g' la la' L3 L4 L5 L6 by simp
  with can jp show ?thesis by simp
qed

lemma canonize_phase_ginv:
  assumes c: "canonize_active t = Some (Inr t')" and inv: "phase_ginv d t n"
  shows "phase_ginv d t' n \<and> canonical t' (active t')"
proof -
  note g = phase_ginvD(1)[OF inv] and la = phase_ginvD(2)[OF inv] and k = phase_ginvD(3)[OF inv]
    and cn = phase_ginvD(4)[OF inv] and c5 = phase_ginvD(5)[OF inv]
  from canonize_ginv[OF c g] have g': "ginv d t'" and can: "canonical t' (active t')"
    and nd: "nodes t' = nodes t" and ed: "edges t' = edges t"
    and la': "suffix.last_obj_index (active t') = suffix.last_obj_index (active t)"
    and jp: "jpos d (active t') = jpos d (active t)"
    and ex: "explicit (active t) \<Longrightarrow> active t' = active t"
    and k1: "- 1 \<le> suffix_length (active t) \<Longrightarrow> - 1 \<le> suffix_length (active t')"
    by simp_all
  have ad: "adepth d (active t') = adepth d (active t)" using la' jp by (simp add: adepth_jpos)
  have L4: "int (length (nodes t')) \<le> 2 * jpos d (active t') \<or> pristine d t'"
  proof (cases "pristine d t")
    case True
    from ex[OF pristine_explicit[OF True]] True show ?thesis
      using pristine_cong[OF nd ed, of d] by simp
  next
    case False
    with cn show ?thesis by (simp add: nd jp)
  qed
  have L5: "adepth d (active t') \<le> 0 \<and> 2 \<le> jpos d (active t') \<longrightarrow>
              int (length (nodes t')) < 2 * jpos d (active t')"
    using c5 by (simp add: ad jp nd)
  have "phase_ginv d t' n"
    unfolding phase_ginv_def using g' la la' k1[OF k] L4 L5 by simp
  with can show ?thesis by simp
qed

lemma loop_step_ginv:
  assumes inv: "loop_ginv d t i lp" and can: "canonical t (active t)"
      and h: "add_prefix_head t i = Inr (Some (t1, p))"
      and x: "add_prefix_extend t1 i lp p = Inr t2"
      and c: "canonize_active t2 = Some (Inr t3)"
  shows "\<exists>d'. loop_ginv d' t3 i p \<and> canonical t3 (active t3) \<and>
              jpos d (active t) < jpos d' (active t3)"
proof -
  from head_ginv[OF h inv can] obtain d' where lr: "leaf_ready d' t1 i lp p"
    and j1: "jpos d' (active t1) = jpos d (active t)" by blast
  from leaf_ready_extend[OF lr x] have l2: "loop_ginv d' t2 i p"
    and j2: "jpos d' (active t1) < jpos d' (active t2)" by simp_all
  from canonize_loop_ginv[OF c l2] j1 j2 show ?thesis by auto
qed

lemma link_of_set:
  "lp > 0 \<Longrightarrow> lp < int (length ns) \<Longrightarrow>
     link_of (ns[nat lp := \<lparr>suffix_node = p\<rparr>]) = (link_of ns)(lp := p)"
  using link_of_update[of lp ns p] by simp

text \<open>
  After the loop: the pending suffix link is set and the active suffix grows by the new
  symbol.
\<close>

lemma link_ginv:
  assumes inv: "loop_ginv d t i lp"
      and hb: "add_prefix_head t i = Inr None"
      and l: "add_prefix_link t lp (suffix.source_node_index (active t)) = Inr t2"
  shows "phase_ginv d t2 (i + 1)"
proof -
  let ?a = "active t"
  let ?s = "suffix.source_node_index ?a"
  let ?lk = "link_of (nodes t)"
  let ?n = "int (length (nodes t))"
  let ?j = "jpos d ?a"
  let ?k = "suffix_length ?a"
  note g = loop_ginvD(1)[OF inv] and la = loop_ginvD(2)[OF inv] and lpa = loop_ginvD(3)[OF inv]
    and sp = loop_ginvD(4)[OF inv] and cn = loop_ginvD(5)[OF inv] and c6 = loop_ginvD(6)[OF inv]
  note nne = ginvD(1)[OF g] and Neq = ginvD(2)[OF g] and lo = ginvD(3)[OF g]
    and eds = ginvD(4)[OF g] and bs = ginvD(5)[OF g] and top = ginvD(6)[OF g]
    and cnt = ginvD(7)[OF g]
  have rng: "\<And>v. branch ?lk v \<Longrightarrow> v < ?n" using ginv_range[OF g] .
  from add_prefix_link_result[OF l] have
    ed: "edges t2 = edges t"
    and nd: "nodes t2 = (if lp > 0 then (nodes t)[nat lp := \<lparr>suffix_node = ?s\<rparr>] else nodes t)"
    and lpr: "lp > 0 \<longrightarrow> lp < ?n"
    and ac: "active t2 = ?a\<lparr>suffix.last_obj_index := suffix.last_obj_index ?a + 1\<rparr>"
    and at: "same_attrs t t2"
    by simp_all
  have sa: "seq t2 = seq t" "N t2 = N t" using at by (simp_all add: same_attrs_def)
  from add_prefix_head_break[OF hb] obtain c where c: "py_index (seq t) i = Inr c"
    and np0: "(explicit ?a \<and> map_of (edges t) (?s, c) \<noteq> None) \<or> \<not> explicit ?a"
    by blast
  have np: "\<not> pristine d t"
  proof
    assume "pristine d t"
    then have "explicit ?a" and "edges t = []"
      using pristine_explicit by (auto simp: pristine_def)
    with np0 show False by simp
  qed
  have iN: "i \<le> N t" using py_index_bound[OF c] Neq by simp
  have ds0: "0 \<le> d ?s" using branch_depth[OF lo bs] .
  have k2: "- 2 \<le> ?k" using sp by auto
  define lk2 where "lk2 = (if lp > 0 then ?lk(lp := ?s) else ?lk)"
  have lk2: "link_of (nodes t2) = lk2"
    using lpr link_of_set[of lp "nodes t" ?s] by (simp add: nd lk2_def)
  have lpf: "0 < lp \<Longrightarrow> 0 \<le> ?lk lp \<and> d ?s < d lp"
  proof -
    assume lp: "0 < lp"
    with sp have "- 1 \<le> ?k" by auto
    with lpa[OF lp] show ?thesis by (simp add: adepth_def)
  qed
  have beq: "branch lk2 v = branch ?lk v" for v
    using branch_set[of ?lk lp ?s v] lpf bs by (simp add: lk2_def)
  have lo2: "links_ok d lk2"
    using links_ok_set[OF lo _ _ bs, of lp] lpf lo by (simp add: lk2_def)
  have len2: "length (nodes t2) = length (nodes t)" by (simp add: nd)
  have jp: "jpos d (active t2) = ?j" by (simp add: ac jpos_def)
  have kk: "suffix_length (active t2) = ?k + 1" by (simp add: ac suffix_length_def)
  have ad: "adepth d (active t2) = d ?s + ?k + 2" by (simp add: ac adepth_def suffix_length_def)
  have all2: "\<forall>x \<in> set (edges t). edge_ok d lk2 ?n (N t) ?j x"
  proof
    fix x assume "x \<in> set (edges t)"
    with eds have "edge_ok d ?lk ?n (N t) ?j x" by simp
    then show "edge_ok d lk2 ?n (N t) ?j x"
      by (rule edge_ok_transfer) (use beq rng in simp_all)
  qed
  have g2: "ginv d t2"
  proof (rule ginvI)
    show "nodes t2 \<noteq> []" using nne len2 by auto
    show "N t2 = int (length (seq t2)) - 1" using Neq sa by simp
    show "links_ok d (link_of (nodes t2))" using lo2 by (simp add: lk2)
    show "\<forall>x \<in> set (edges t2). edge_ok d (link_of (nodes t2)) (int (length (nodes t2)))
             (N t2) (jpos d (active t2)) x"
      using all2 by (simp add: lk2 len2 sa jp ed)
    show "branch (link_of (nodes t2)) (suffix.source_node_index (active t2))"
      using bs by (simp add: lk2 beq ac)
    show "suffix.last_obj_index (active t2) \<le> N t2" using la iN by (simp add: sa ac)
    show "length (edges t2) + 1 \<le> length (nodes t2)" using cnt by (simp add: ed len2)
  qed
  have P2: "suffix.last_obj_index (active t2) = (i + 1) - 1" using la by (simp add: ac)
  have P3: "- 1 \<le> suffix_length (active t2)" using k2 kk by simp
  have P4: "int (length (nodes t2)) \<le> 2 * jpos d (active t2)" using cn np by (simp add: len2 jp)
  have P5: "adepth d (active t2) \<le> 0 \<and> 2 \<le> jpos d (active t2) \<longrightarrow>
              int (length (nodes t2)) < 2 * jpos d (active t2)"
  proof (intro impI)
    assume h: "adepth d (active t2) \<le> 0 \<and> 2 \<le> jpos d (active t2)"
    with ad ds0 k2 have "?k = - 2" by simp
    from c6[OF this] h show "int (length (nodes t2)) < 2 * jpos d (active t2)"
      by (simp add: jp len2)
  qed
  show ?thesis
    unfolding phase_ginv_def using g2 P2 P3 P4 P5 by blast
qed

lemma phase_start: "phase_ginv d t n \<Longrightarrow> loop_ginv d t n (- 1)"
  unfolding phase_ginv_def loop_ginv_def by simp

lemma add_prefix_ginv:
  assumes a: "add_prefix t i = Some (Inr t')"
      and inv: "phase_ginv d t i" and can: "canonical t (active t)"
  shows "\<exists>d'. phase_ginv d' t' (i + 1) \<and> canonical t' (active t')"
proof -
  from a obtain t1 lp p where l: "add_prefix_loop t i (- 1) = Some (Inr (t1, lp, p))"
      and f: "add_prefix_finish t1 lp p = Some (Inr t')"
    unfolding add_prefix_def by (auto split: sum.splits Option.bind_splits)
  define I where "I = (\<lambda>(u::'a SuffixTree) (l::int). \<exists>d. loop_ginv d u i l \<and> canonical u (active u))"
  have "I t1 lp \<and> add_prefix_head t1 i = Inr None \<and> p = suffix.source_node_index (active t1)"
  proof (rule add_prefix_loop_rule[where I=I, OF l])
    show "I t (- 1)" unfolding I_def using phase_start[OF inv] can by blast
  next
    fix u lp u1 p1 u2 u3
    assume "I u lp" and h: "add_prefix_head u i = Inr (Some (u1, p1))"
      and x: "add_prefix_extend u1 i lp p1 = Inr u2" and c: "canonize_active u2 = Some (Inr u3)"
    then obtain d0 where "loop_ginv d0 u i lp" "canonical u (active u)" unfolding I_def by blast
    from loop_step_ginv[OF this h x c] show "I u3 p1" unfolding I_def by blast
  qed
  then obtain d1 where i1: "loop_ginv d1 t1 i lp" and hb: "add_prefix_head t1 i = Inr None"
    and p: "p = suffix.source_node_index (active t1)"
    unfolding I_def by blast
  from f obtain t2 where k: "add_prefix_link t1 lp p = Inr t2"
      and c: "canonize_active t2 = Some (Inr t')"
    unfolding add_prefix_finish_def by (auto split: sum.splits)
  from link_ginv[OF i1 hb k[unfolded p]] have "phase_ginv d1 t2 (i + 1)" .
  from canonize_phase_ginv[OF c this] show ?thesis by blast
qed

lemma add_prefixes_ginv:
  "add_prefixes t [m ..< m + k] = Some (Inr t') \<Longrightarrow>
   phase_ginv d t (int m) \<Longrightarrow> canonical t (active t) \<Longrightarrow>
   \<exists>d'. phase_ginv d' t' (int (m + k)) \<and> canonical t' (active t')"
proof (induction k arbitrary: t m d)
  case 0
  then show ?case by auto
next
  case (Suc k)
  have u: "[m ..< m + Suc k] = m # [Suc m ..< Suc m + k]" by (simp add: upt_rec)
  from Suc.prems(1) obtain t1 where a: "add_prefix t (int m) = Some (Inr t1)"
      and r: "add_prefixes t1 [Suc m ..< Suc m + k] = Some (Inr t')"
    unfolding u by (auto split: sum.splits Option.bind_splits)
  from add_prefix_ginv[OF a Suc.prems(2,3)] obtain d1 where
    "phase_ginv d1 t1 (int m + 1)" "canonical t1 (active t1)" by blast
  then have "phase_ginv d1 t1 (int (Suc m))" "canonical t1 (active t1)"
    by (simp_all add: add.commute)
  from Suc.IH[OF r this] show ?case by simp
qed

lemma new_tree_ginv: "phase_ginv (\<lambda>_. 0) (new_tree s) 0 \<and> canonical (new_tree s) (active (new_tree s))"
  by (simp add: phase_ginv_def ginv_def new_tree_def links_ok_def link_of_def Node_def branch_def
        Suffix_def pristine_def jpos_def suffix_length_def canonical_def explicit_def)

lemma construction_ginv:
  assumes "add_prefixes (new_tree s) [0 ..< n] = Some (Inr t)"
  shows "\<exists>d. phase_ginv d t (int n)"
  using add_prefixes_ginv[of "new_tree s" 0 n t "\<lambda>_. 0"] assms new_tree_ginv[of s] by auto


section \<open>Every phase of the construction returns\<close>

lemma ginv_spans_ok:
  assumes g: "ginv d t"
  shows "spans_ok t"
  unfolding spans_ok_def
proof (clarify)
  fix a b e assume "((a, b), e) \<in> set (edges t)"
  with ginvD(4)[OF g]
  have "edge_ok d (link_of (nodes t)) (int (length (nodes t))) (N t) (jpos d (active t)) ((a, b), e)"
    by blast
  then show "edge.first_obj_index e \<le> edge.last_obj_index e" by (simp add: edge_ok_def)
qed

lemma canonize_active_returns:
  assumes "spans_ok t"
  shows "\<exists>r. canonize_active t = Some r"
proof -
  from canonize_suffix_total[OF assms, of "active t"] obtain r where
    "canonize_suffix t (active t) = Some r" by blast
  then show ?thesis by (cases r) (simp_all add: canonize_active_def)
qed

lemma loop_jpos_bound:
  assumes inv: "loop_ginv d t i lp"
  shows "jpos d (active t) \<le> i + 1"
proof -
  note g = loop_ginvD(1)[OF inv] and la = loop_ginvD(2)[OF inv] and sp = loop_ginvD(4)[OF inv]
  have ds: "0 \<le> d (suffix.source_node_index (active t))"
    using branch_depth[OF ginvD(3)[OF g] ginvD(5)[OF g]] .
  have "- 2 \<le> suffix_length (active t)" using sp by auto
  with ds have "- 1 \<le> adepth d (active t)" by (simp add: adepth_def)
  then show ?thesis using la by (simp add: adepth_jpos)
qed

text \<open>
  Every pass of the loop that does not leave it moves on to a later suffix, and no suffix
  starts after index \<open>i + 1\<close>: the loop of \<open>_add_prefix(i)\<close> ends.
\<close>

lemma add_prefix_loop_returns:
  assumes "loop_ginv d t i lp" and "canonical t (active t)"
  shows "\<exists>r. add_prefix_loop t i lp = Some r"
  using assms
proof (induction "nat (i + 2 - jpos d (active t))" arbitrary: t lp d rule: less_induct)
  case less
  show ?case
  proof (cases "add_prefix_head t i")
    case (Inl e)
    then show ?thesis by (subst add_prefix_loop.simps) simp
  next
    case hd0: (Inr h)
    show ?thesis
    proof (cases h)
      case None
      with hd0 show ?thesis by (subst add_prefix_loop.simps) simp
    next
      case (Some tp)
      obtain t1 p where tp: "tp = (t1, p)" by (cases tp)
      have hd: "add_prefix_head t i = Inr (Some (t1, p))" using hd0 Some tp by simp
      show ?thesis
      proof (cases "add_prefix_extend t1 i lp p")
        case (Inl e)
        with hd show ?thesis by (subst add_prefix_loop.simps) simp
      next
        case x: (Inr t2)
        from head_ginv[OF hd less.prems] obtain d' where lr: "leaf_ready d' t1 i lp p" by blast
        from leaf_ready_extend[OF lr x] have l2: "loop_ginv d' t2 i p" by simp
        from canonize_active_returns[OF ginv_spans_ok[OF loop_ginvD(1)[OF l2]]]
        obtain r where c: "canonize_active t2 = Some r" by blast
        show ?thesis
        proof (cases r)
          case (Inl e)
          with hd x c show ?thesis by (subst add_prefix_loop.simps) simp
        next
          case r: (Inr t3)
          from loop_step_ginv[OF less.prems hd x c[unfolded r]] obtain d3 where
            l3: "loop_ginv d3 t3 i p" and can3: "canonical t3 (active t3)"
            and jj: "jpos d (active t) < jpos d3 (active t3)" by blast
          have "nat (i + 2 - jpos d3 (active t3)) < nat (i + 2 - jpos d (active t))"
            using jj loop_jpos_bound[OF less.prems(1)] by simp
          from less.hyps[OF this l3 can3] obtain r' where "add_prefix_loop t3 i p = Some r'"
            by blast
          with hd x c r show ?thesis by (subst add_prefix_loop.simps) simp
        qed
      qed
    qed
  qed
qed

lemma add_prefix_loop_ginv:
  assumes l: "add_prefix_loop t i (- 1) = Some (Inr (t1, lp, p))"
      and inv: "phase_ginv d t i" and can: "canonical t (active t)"
  shows "\<exists>d1. loop_ginv d1 t1 i lp \<and> add_prefix_head t1 i = Inr None \<and>
              p = suffix.source_node_index (active t1)"
proof -
  define I where "I = (\<lambda>(u::'a SuffixTree) (l::int). \<exists>d. loop_ginv d u i l \<and> canonical u (active u))"
  have "I t1 lp \<and> add_prefix_head t1 i = Inr None \<and> p = suffix.source_node_index (active t1)"
  proof (rule add_prefix_loop_rule[where I=I, OF l])
    show "I t (- 1)" unfolding I_def using phase_start[OF inv] can by blast
  next
    fix u lp u1 p1 u2 u3
    assume "I u lp" and h: "add_prefix_head u i = Inr (Some (u1, p1))"
      and x: "add_prefix_extend u1 i lp p1 = Inr u2" and c: "canonize_active u2 = Some (Inr u3)"
    then obtain d0 where "loop_ginv d0 u i lp" "canonical u (active u)" unfolding I_def by blast
    from loop_step_ginv[OF this h x c] show "I u3 p1" unfolding I_def by blast
  qed
  then show ?thesis unfolding I_def by blast
qed

lemma add_prefix_returns:
  assumes inv: "phase_ginv d t i" and can: "canonical t (active t)"
  shows "\<exists>r. add_prefix t i = Some r"
proof -
  from add_prefix_loop_returns[OF phase_start[OF inv] can] obtain r where
    l: "add_prefix_loop t i (- 1) = Some r" by blast
  show ?thesis
  proof (cases r)
    case (Inl e)
    with l show ?thesis by (simp add: add_prefix_def)
  next
    case (Inr x)
    obtain t1 lp p where x: "x = (t1, lp, p)" by (cases x)
    from add_prefix_loop_ginv[OF l[unfolded Inr x] inv can] obtain d1 where
      i1: "loop_ginv d1 t1 i lp" and hb: "add_prefix_head t1 i = Inr None"
      and p: "p = suffix.source_node_index (active t1)" by blast
    show ?thesis
    proof (cases "add_prefix_link t1 lp p")
      case (Inl e)
      with l Inr x show ?thesis by (simp add: add_prefix_def add_prefix_finish_def)
    next
      case k: (Inr t2)
      from link_ginv[OF i1 hb k[unfolded p]] have "phase_ginv d1 t2 (i + 1)" .
      from canonize_active_returns[OF ginv_spans_ok[OF phase_ginvD(1)[OF this]]]
      obtain r2 where "canonize_active t2 = Some r2" by blast
      with l Inr x k show ?thesis by (simp add: add_prefix_def add_prefix_finish_def)
    qed
  qed
qed

lemma add_prefixes_returns:
  "phase_ginv d t (int m) \<Longrightarrow> canonical t (active t) \<Longrightarrow>
   \<exists>r. add_prefixes t [m ..< m + k] = Some r"
proof (induction k arbitrary: t m d)
  case 0
  then show ?case by simp
next
  case (Suc k)
  have u: "[m ..< m + Suc k] = m # [Suc m ..< Suc m + k]" by (simp add: upt_rec)
  from add_prefix_returns[OF Suc.prems] obtain r where a: "add_prefix t (int m) = Some r"
    by blast
  show ?case
  proof (cases r)
    case (Inl e)
    with a show ?thesis unfolding u by simp
  next
    case (Inr t1)
    from add_prefix_ginv[OF a[unfolded Inr] Suc.prems] obtain d1 where
      "phase_ginv d1 t1 (int m + 1)" "canonical t1 (active t1)" by blast
    then have "phase_ginv d1 t1 (int (Suc m))" "canonical t1 (active t1)"
      by (simp_all add: add.commute)
    from Suc.IH[OF this] obtain r' where "add_prefixes t1 [Suc m ..< Suc m + k] = Some r'"
      by blast
    with a Inr show ?thesis unfolding u by simp
  qed
qed

lemma construction_returns: "\<exists>r. add_prefixes (new_tree s) [0 ..< n] = Some r"
  using add_prefixes_returns[of "\<lambda>_. 0" "new_tree s" 0 n] new_tree_ginv[of s] by auto

section \<open>The labels of the nodes during the construction\<close>

lemma tree_okD:
  assumes "tree_ok S M n" and "M k = Some e"
  shows "fst k = edge.source_node_index e" and "0 \<le> fst k" and "fst k < n"
    and "1 \<le> edge.dest_node_index e" and "edge.dest_node_index e < n"
    and "0 \<le> edge.first_obj_index e" and "0 \<le> edge_length e"
    and "snd k = S ! nat (edge.first_obj_index e)"
  using assms unfolding tree_ok_def edge_length_def by (blast, blast, blast, blast, blast, blast, fastforce, blast)

lemma tree_ok_inj:
  assumes "tree_ok S M n" and "M k = Some e" and "M k' = Some e'"
      and "edge.dest_node_index e = edge.dest_node_index e'"
  shows "k = k' \<and> e = e'"
proof -
  from assms have "k = k'" unfolding tree_ok_def by blast
  with assms(2,3) show ?thesis by simp
qed

lemma same_syms_refl [simp]: "same_syms S a a n"
  by (simp add: same_syms_def)

lemma same_syms_sym: "same_syms S a b n \<Longrightarrow> same_syms S b a n"
  by (simp add: same_syms_def)

lemma same_syms_trans: "same_syms S a b n \<Longrightarrow> same_syms S b c n \<Longrightarrow> same_syms S a c n"
  by (simp add: same_syms_def)

lemma same_syms_mono: "same_syms S a b n \<Longrightarrow> n' \<le> n \<Longrightarrow> same_syms S a b n'"
  by (simp add: same_syms_def)

lemma same_syms_empty [simp]: "n \<le> 0 \<Longrightarrow> same_syms S a b n"
  by (simp add: same_syms_def)

lemma same_syms_at: "same_syms S a b n \<Longrightarrow> 0 \<le> m \<Longrightarrow> m < n \<Longrightarrow> S ! nat (a + m) = S ! nat (b + m)"
  by (simp add: same_syms_def)

lemma same_syms_head: "same_syms S a b n \<Longrightarrow> 0 < n \<Longrightarrow> S ! nat a = S ! nat b"
  using same_syms_at[of S a b n 0] by simp

lemma same_syms_shift:
  assumes "same_syms S a b n" and "0 \<le> m"
  shows "same_syms S (a + m) (b + m) (n - m)"
  unfolding same_syms_def
proof
  fix x assume "x \<in> {0 ..< n - m}"
  then have "0 \<le> m + x" "m + x < n" using assms(2) by auto
  from same_syms_at[OF assms(1) this] show "S ! nat (a + m + x) = S ! nat (b + m + x)"
    by (simp add: add.assoc)
qed

lemma same_syms_append:
  assumes "same_syms S a b n" and "same_syms S (a + n) (b + n) n'" and "0 \<le> n"
  shows "same_syms S a b (n + n')"
  unfolding same_syms_def
proof
  fix x assume x: "x \<in> {0 ..< n + n'}"
  show "S ! nat (a + x) = S ! nat (b + x)"
  proof (cases "x < n")
    case True
    with x same_syms_at[OF assms(1), of x] show ?thesis by simp
  next
    case False
    with x have "0 \<le> x - n" "x - n < n'" by auto
    from same_syms_at[OF assms(2) this] show ?thesis by simp
  qed
qed

lemma path_inv:
  assumes "path S M a b v"
  shows "(v = 0 \<and> b = a) \<or>
         (\<exists>b0 u c e. path S M a b0 u \<and> M (u, c) = Some e \<and>
             same_syms S (edge.first_obj_index e) b0 (edge_length e + 1) \<and>
             b = b0 + (edge_length e + 1) \<and> v = edge.dest_node_index e)"
  using assms by (cases rule: path.cases) auto

lemma path_le: "path S M a b v \<Longrightarrow> tree_ok S M n \<Longrightarrow> a \<le> b"
proof (induction rule: path.induct)
  case (at_root a)
  then show ?case by simp
next
  case (along a b u c e)
  with tree_okD(7)[OF along.prems along.hyps(2)] show ?case by simp
qed

lemma path_root:
  assumes "path S M a b 0" and "tree_ok S M n"
  shows "b = a"
proof -
  from path_inv[OF assms(1)] show ?thesis
  proof
    assume "0 = (0::int) \<and> b = a"
    then show ?thesis by simp
  next
    assume "\<exists>b0 u c e. path S M a b0 u \<and> M (u, c) = Some e \<and>
             same_syms S (edge.first_obj_index e) b0 (edge_length e + 1) \<and>
             b = b0 + (edge_length e + 1) \<and> 0 = edge.dest_node_index e"
    then obtain u c e where "M (u, c) = Some e" "0 = edge.dest_node_index e" by blast
    with tree_okD(4)[OF assms(2) this(1)] show ?thesis by simp
  qed
qed

lemma path_unique:
  assumes "path S M a b v" and "path S M a' b' v" and ok: "tree_ok S M n"
  shows "b - a = b' - a' \<and> same_syms S a a' (b - a)"
  using assms(1,2)
proof (induction arbitrary: a' b' rule: path.induct)
  case (at_root a)
  from path_root[OF at_root ok] show ?case by simp
next
  case (along a b u c e)
  let ?l = "edge_length e + 1"
  have d1: "1 \<le> edge.dest_node_index e" using tree_okD(4)[OF ok along.hyps(2)] .
  have l0: "0 \<le> edge_length e" using tree_okD(7)[OF ok along.hyps(2)] .
  from path_inv[OF along.prems] d1 obtain b2 u2 c2 e2 where
    p2: "path S M a' b2 u2" and m2: "M (u2, c2) = Some e2"
    and sy2: "same_syms S (edge.first_obj_index e2) b2 (edge_length e2 + 1)"
    and b': "b' = b2 + (edge_length e2 + 1)"
    and de: "edge.dest_node_index e = edge.dest_node_index e2"
    by auto
  from tree_ok_inj[OF ok along.hyps(2) m2 de]
  have k: "(u, c) = (u2, c2)" and e: "e = e2" by simp_all
  then have pu: "path S M a' b2 u" using p2 by simp
  from along.IH[OF pu] have len: "b - a = b2 - a'" and s1: "same_syms S a a' (b - a)"
    by blast+
  have ab: "a \<le> b" using path_le[OF along.hyps(1) ok] .
  have s2: "same_syms S b b2 ?l"
    using same_syms_trans[OF same_syms_sym[OF along.hyps(3)]] sy2 e by simp
  have eq: "a + (b - a) = b" "a' + (b - a) = b2" using len by arith+
  have "same_syms S (a + (b - a)) (a' + (b - a)) ?l" unfolding eq using s2 .
  from same_syms_append[OF s1 this] ab
  have s3: "same_syms S a a' (b - a + ?l)" by simp
  have l1: "b + ?l - a = b' - a'" using len b' e by arith
  have l2: "b + ?l - a = b - a + ?l" by arith
  show ?case using s3 l1 unfolding l2 by blast
qed

lemma path_transfer:
  assumes "path S M a b v" and ok: "tree_ok S M n" and "same_syms S a a' (b - a)"
  shows "path S M a' (a' + (b - a)) v"
  using assms(1,3)
proof (induction rule: path.induct)
  case (at_root a)
  show ?case using path.at_root[of S M a'] by simp
next
  case (along a b u c e)
  let ?l = "edge_length e + 1"
  have l0: "0 \<le> edge_length e" using tree_okD(7)[OF ok along.hyps(2)] .
  have ab: "a \<le> b" using path_le[OF along.hyps(1) ok] .
  have s1: "same_syms S a a' (b - a)" using same_syms_mono[OF along.prems] l0 by simp
  from along.IH[OF s1] have p: "path S M a' (a' + (b - a)) u" .
  have "same_syms S (a + (b - a)) (a' + (b - a)) (b + ?l - a - (b - a))"
    using same_syms_shift[OF along.prems, of "b - a"] ab by simp
  then have "same_syms S b (a' + (b - a)) ?l" by simp
  from same_syms_trans[OF along.hyps(3) this]
  have "same_syms S (edge.first_obj_index e) (a' + (b - a)) ?l" .
  from path.along[OF p along.hyps(2) this] show ?case by (simp add: algebra_simps)
qed

lemma reads_inv:
  assumes "reads S M u a c"
  shows "c < a \<or>
         (a \<le> c \<and> (\<exists>e. M (u, S ! nat a) = Some e \<and>
            ((c - a \<le> edge_length e \<and> same_syms S (edge.first_obj_index e) a (c - a + 1)) \<or>
             (edge_length e < c - a \<and>
              same_syms S (edge.first_obj_index e) a (edge_length e + 1) \<and>
              reads S M (edge.dest_node_index e) (a + (edge_length e + 1)) c))))"
  using assms by (cases rule: reads.cases) auto

lemma edge_key:
  assumes ok: "tree_ok S M n" and m: "M (u, c) = Some e"
      and s: "same_syms S (edge.first_obj_index e) b (edge_length e + 1)"
  shows "M (u, S ! nat b) = Some e"
proof -
  have "c = S ! nat (edge.first_obj_index e)" using tree_okD(8)[OF ok m] by simp
  moreover have "S ! nat (edge.first_obj_index e) = S ! nat b"
    using same_syms_head[OF s] tree_okD(7)[OF ok m] by simp
  ultimately show ?thesis using m by simp
qed

lemma reads_thru:
  assumes "path S M a b v" and ok: "tree_ok S M n" and "reads S M 0 a c" and "b - 1 \<le> c"
  shows "reads S M v b c"
  using assms(1,3,4)
proof (induction rule: path.induct)
  case (at_root a)
  then show ?case by simp
next
  case (along a b u k e)
  let ?l = "edge_length e + 1"
  have l0: "0 \<le> edge_length e" using tree_okD(7)[OF ok along.hyps(2)] .
  have bc: "b + edge_length e \<le> c" using along.prems(2) by simp
  have r: "reads S M u b c" using along.IH[OF along.prems(1)] bc l0 by simp
  have key: "M (u, S ! nat b) = Some e" using edge_key[OF ok along.hyps(2,3)] .
  from reads_inv[OF r] bc l0 key
  have "(c - b \<le> edge_length e) \<or> reads S M (edge.dest_node_index e) (b + ?l) c"
    by auto
  then show ?case
  proof
    assume "c - b \<le> edge_length e"
    with bc have "c < b + ?l" by simp
    then show ?thesis by (rule reads.nothing)
  next
    assume "reads S M (edge.dest_node_index e) (b + ?l) c"
    then show ?thesis .
  qed
qed

lemma reads_prepend:
  assumes "path S M a b v" and ok: "tree_ok S M n" and "reads S M v b c" and "b - 1 \<le> c"
  shows "reads S M 0 a c"
  using assms(1,3,4)
proof (induction rule: path.induct)
  case (at_root a)
  then show ?case by simp
next
  case (along a b u k e)
  let ?l = "edge_length e + 1"
  have l0: "0 \<le> edge_length e" using tree_okD(7)[OF ok along.hyps(2)] .
  have bc: "b + edge_length e \<le> c" using along.prems(2) by simp
  have bc0: "b \<le> c" using bc l0 by simp
  have key: "M (u, S ! nat b) = Some e" using edge_key[OF ok along.hyps(2,3)] .
  have r: "reads S M u b c"
  proof (cases "c - b \<le> edge_length e")
    case True
    with bc have "c - b + 1 = ?l" by simp
    with along.hyps(3) have sy: "same_syms S (edge.first_obj_index e) b (c - b + 1)" by simp
    show ?thesis using bc0 key True sy by (rule reads.inside)
  next
    case False
    then have lt: "edge_length e < c - b" by simp
    show ?thesis using bc0 key lt along.hyps(3) along.prems(1) by (rule reads.across)
  qed
  have "b - 1 \<le> c" using bc0 by simp
  from along.IH[OF r this] show ?case .
qed

lemma reads_transfer:
  assumes "reads S M u a c" and ok: "tree_ok S M n"
      and "c' - a' \<le> c - a" and "same_syms S a a' (c' - a' + 1)"
  shows "reads S M u a' c'"
  using assms(1,3,4)
proof (induction arbitrary: a' c' rule: reads.induct)
  case (nothing c a u)
  then have "c' < a'" by simp
  then show ?case by (rule reads.nothing)
next
  case (inside a c u e)
  show ?case
  proof (cases "c' < a'")
    case True
    then show ?thesis by (rule reads.nothing)
  next
    case False
    then have ac: "a' \<le> c'" by simp
    have h: "S ! nat a = S ! nat a'" using same_syms_head[OF inside.prems(2)] False by simp
    have m: "M (u, S ! nat a') = Some e" using inside.hyps(2) h by simp
    have le: "c' - a' \<le> edge_length e" using inside.hyps(3) inside.prems(1) by simp
    have le2: "c' - a' + 1 \<le> c - a + 1" using inside.prems(1) by simp
    from same_syms_trans[OF same_syms_mono[OF inside.hyps(4) le2] inside.prems(2)]
    have s: "same_syms S (edge.first_obj_index e) a' (c' - a' + 1)" .
    show ?thesis using ac m le s by (rule reads.inside)
  qed
next
  case (across a c u e)
  let ?l = "edge_length e + 1"
  have m0: "M (u, S ! nat a) = Some e" using across.hyps(2) .
  have l0: "0 \<le> edge_length e" using tree_okD(7)[OF ok m0] .
  show ?case
  proof (cases "c' < a'")
    case True
    then show ?thesis by (rule reads.nothing)
  next
    case False
    then have ac: "a' \<le> c'" by simp
    have h: "S ! nat a = S ! nat a'" using same_syms_head[OF across.prems(2)] False by simp
    have m: "M (u, S ! nat a') = Some e" using m0 h by simp
    show ?thesis
    proof (cases "c' - a' \<le> edge_length e")
      case True
      have le2: "c' - a' + 1 \<le> ?l" using True by simp
      from same_syms_trans[OF same_syms_mono[OF across.hyps(4) le2] across.prems(2)]
      have s: "same_syms S (edge.first_obj_index e) a' (c' - a' + 1)" .
      show ?thesis using ac m True s by (rule reads.inside)
    next
      case long: False
      then have lt: "edge_length e < c' - a'" by simp
      have le2: "?l \<le> c' - a' + 1" using long by simp
      from same_syms_trans[OF across.hyps(4) same_syms_mono[OF across.prems(2) le2]]
      have s: "same_syms S (edge.first_obj_index e) a' ?l" .
      have pos: "0 \<le> ?l" using l0 by simp
      have sh: "same_syms S (a + ?l) (a' + ?l) (c' - a' + 1 - ?l)"
        using across.prems(2) pos by (rule same_syms_shift)
      have le3: "c' - (a' + ?l) + 1 \<le> c' - a' + 1 - ?l" by arith
      have s2: "same_syms S (a + ?l) (a' + ?l) (c' - (a' + ?l) + 1)"
        using sh le3 by (rule same_syms_mono)
      have le: "c' - (a' + ?l) \<le> c - (a + ?l)" using across.prems(1) by arith
      from across.IH[OF le s2]
      have r: "reads S M (edge.dest_node_index e) (a' + ?l) c'" .
      show ?thesis using ac m lt s r by (rule reads.across)
    qed
  qed
qed

lemma reads_prefix:
  assumes "reads S M u a c" and "tree_ok S M n" and "c' \<le> c"
  shows "reads S M u a c'"
proof -
  have "c' - a \<le> c - a" using assms(3) by simp
  from reads_transfer[OF assms(1,2) this same_syms_refl] show ?thesis .
qed

lemma path_mono:
  assumes "path S M a b v" and sub: "\<And>k e. M k = Some e \<Longrightarrow> M' k = Some e"
  shows "path S M' a b v"
  using assms(1)
proof (induction rule: path.induct)
  case (at_root a)
  show ?case by (rule path.at_root)
next
  case (along a b u c e)
  from path.along[OF along.IH sub[OF along.hyps(2)] along.hyps(3)] show ?case .
qed

lemma reads_mono:
  assumes "reads S M u a c" and sub: "\<And>k e. M k = Some e \<Longrightarrow> M' k = Some e"
  shows "reads S M' u a c"
  using assms(1)
proof (induction rule: reads.induct)
  case (nothing c a u)
  then show ?case by (rule reads.nothing)
next
  case (inside a c u e)
  show ?case using inside.hyps(1) sub[OF inside.hyps(2)] inside.hyps(3,4) by (rule reads.inside)
next
  case (across a c u e)
  show ?case using across.hyps(1) sub[OF across.hyps(2)] across.hyps(3,4) across.IH
    by (rule reads.across)
qed

lemma path_split:
  assumes "path S M a b v" and ok: "tree_ok S M n"
      and e: "M (s, c0) = Some e" and k: "0 \<le> k" "k < edge_length e"
      and e1: "M' (s, c0) = Some e1" "edge.first_obj_index e1 = edge.first_obj_index e"
              "edge_length e1 = k" "edge.dest_node_index e1 = n"
      and e2: "M' (n, c') = Some e2" "edge.first_obj_index e2 = edge.first_obj_index e + (k + 1)"
              "edge_length e2 = edge_length e - (k + 1)"
              "edge.dest_node_index e2 = edge.dest_node_index e"
      and rest: "\<And>key. key \<noteq> (s, c0) \<Longrightarrow> fst key \<noteq> n \<Longrightarrow> M' key = M key"
  shows "path S M' a b v"
  using assms(1)
proof (induction rule: path.induct)
  case (at_root a)
  show ?case by (rule path.at_root)
next
  case (along a b u c e0)
  show ?case
  proof (cases "(u, c) = (s, c0)")
    case True
    with along.hyps(2) e have ee: "e0 = e" by simp
    have sy: "same_syms S (edge.first_obj_index e) b (edge_length e + 1)"
      using along.hyps(3) ee by simp
    have le: "k + 1 \<le> edge_length e + 1" using k by simp
    have s1: "same_syms S (edge.first_obj_index e1) b (edge_length e1 + 1)"
      using same_syms_mono[OF sy le] e1 by simp
    have u: "u = s" using True by simp
    from path.along[OF along.IH[unfolded u] e1(1) s1]
    have p1: "path S M' a (b + (k + 1)) n" using e1 by simp
    have pos: "0 \<le> k + 1" using k by simp
    have "same_syms S (edge.first_obj_index e + (k + 1)) (b + (k + 1)) (edge_length e + 1 - (k + 1))"
      using sy pos by (rule same_syms_shift)
    moreover have "edge_length e + 1 - (k + 1) = edge_length e2 + 1" using e2 by simp
    ultimately have s2: "same_syms S (edge.first_obj_index e2) (b + (k + 1)) (edge_length e2 + 1)"
      using e2 by simp
    from path.along[OF p1 e2(1) s2]
    have P: "path S M' a (b + (k + 1) + (edge_length e2 + 1)) (edge.dest_node_index e2)" .
    have eq: "b + (k + 1) + (edge_length e2 + 1) = b + (edge_length e0 + 1)"
      using e2 ee by simp
    show ?thesis using P unfolding eq e2(4) ee .
  next
    case False
    have "fst (u, c) < n" using tree_okD(3)[OF ok along.hyps(2)] .
    then have "fst (u, c) \<noteq> n" by simp
    from rest[OF False this] along.hyps(2) have "M' (u, c) = Some e0" by simp
    from path.along[OF along.IH this along.hyps(3)] show ?thesis .
  qed
qed

lemma reads_split:
  assumes "reads S M u a c" and ok: "tree_ok S M n"
      and e: "M (s, c0) = Some e" and k: "0 \<le> k" "k < edge_length e"
      and e1: "M' (s, c0) = Some e1" "edge.first_obj_index e1 = edge.first_obj_index e"
              "edge_length e1 = k" "edge.dest_node_index e1 = n"
      and e2: "M' (n, c') = Some e2" "edge.first_obj_index e2 = edge.first_obj_index e + (k + 1)"
              "edge_length e2 = edge_length e - (k + 1)"
              "edge.dest_node_index e2 = edge.dest_node_index e"
      and c': "c' = S ! nat (edge.first_obj_index e + (k + 1))"
      and rest: "\<And>key. key \<noteq> (s, c0) \<Longrightarrow> fst key \<noteq> n \<Longrightarrow> M' key = M key"
  shows "reads S M' u a c"
  using assms(1)
proof (induction rule: reads.induct)
  case (nothing c a u)
  then show ?case by (rule reads.nothing)
next
  case (inside a c u e0)
  show ?case
  proof (cases "(u, S ! nat a) = (s, c0)")
    case True
    with inside.hyps(2) e have ee: "e0 = e" by simp
    have u: "u = s" and ky: "S ! nat a = c0" using True by simp_all
    have sy: "same_syms S (edge.first_obj_index e) a (c - a + 1)"
      using inside.hyps(4) ee by simp
    have m1: "M' (u, S ! nat a) = Some e1" using e1(1) u ky by simp
    show ?thesis
    proof (cases "c - a \<le> k")
      case short: True
      have "same_syms S (edge.first_obj_index e1) a (c - a + 1)" using sy e1 by simp
      have short': "c - a \<le> edge_length e1" using short e1 by simp
      have sy1: "same_syms S (edge.first_obj_index e1) a (c - a + 1)" using sy e1 by simp
      show ?thesis using inside.hyps(1) m1 short' sy1 by (rule reads.inside)
    next
      case False
      then have lt: "edge_length e1 < c - a" using e1 by simp
      have le: "edge_length e1 + 1 \<le> c - a + 1" using lt by simp
      have s1: "same_syms S (edge.first_obj_index e1) a (edge_length e1 + 1)"
        using same_syms_mono[OF sy le] e1 by simp
      have at: "S ! nat (edge.first_obj_index e + (k + 1)) = S ! nat (a + (k + 1))"
        using same_syms_at[OF sy, of "k + 1"] k False by simp
      have m2: "M' (n, S ! nat (a + (k + 1))) = Some e2" using e2(1) c' at by simp
      have pos: "0 \<le> k + 1" using k by simp
      have sh: "same_syms S (edge.first_obj_index e + (k + 1)) (a + (k + 1)) (c - a + 1 - (k + 1))"
        using sy pos by (rule same_syms_shift)
      have le3: "c - (a + (k + 1)) + 1 \<le> c - a + 1 - (k + 1)" by arith
      have s2: "same_syms S (edge.first_obj_index e2) (a + (k + 1)) (c - (a + (k + 1)) + 1)"
        using same_syms_mono[OF sh le3] e2 by simp
      have ac2: "a + (k + 1) \<le> c" using False by simp
      have in2: "c - (a + (k + 1)) \<le> edge_length e2" using inside.hyps(3) ee e2 by simp
      have r2: "reads S M' n (a + (k + 1)) c" using ac2 m2 in2 s2 by (rule reads.inside)
      have r2': "reads S M' (edge.dest_node_index e1) (a + (edge_length e1 + 1)) c"
        using r2 e1 by simp
      show ?thesis using inside.hyps(1) m1 lt s1 r2' by (rule reads.across)
    qed
  next
    case False
    have "fst (u, S ! nat a) < n" using tree_okD(3)[OF ok inside.hyps(2)] .
    then have "fst (u, S ! nat a) \<noteq> n" by simp
    from rest[OF False this] inside.hyps(2) have "M' (u, S ! nat a) = Some e0" by simp
    then show ?thesis using inside.hyps(1,3,4) reads.inside[of a c M' u S e0] by blast
  qed
next
  case (across a c u e0)
  show ?case
  proof (cases "(u, S ! nat a) = (s, c0)")
    case True
    with across.hyps(2) e have ee: "e0 = e" by simp
    have u: "u = s" and ky: "S ! nat a = c0" using True by simp_all
    have sy: "same_syms S (edge.first_obj_index e) a (edge_length e + 1)"
      using across.hyps(4) ee by simp
    have m1: "M' (u, S ! nat a) = Some e1" using e1(1) u ky by simp
    have lt: "edge_length e1 < c - a" using e1 k across.hyps(3) ee by simp
    have le: "edge_length e1 + 1 \<le> edge_length e + 1" using e1 k by simp
    have s1: "same_syms S (edge.first_obj_index e1) a (edge_length e1 + 1)"
      using same_syms_mono[OF sy le] e1 by simp
    have at: "S ! nat (edge.first_obj_index e + (k + 1)) = S ! nat (a + (k + 1))"
      using same_syms_at[OF sy, of "k + 1"] k by simp
    have m2: "M' (n, S ! nat (a + (k + 1))) = Some e2" using e2(1) c' at by simp
    have pos: "0 \<le> k + 1" using k by simp
    have sh: "same_syms S (edge.first_obj_index e + (k + 1)) (a + (k + 1))
                (edge_length e + 1 - (k + 1))"
      using sy pos by (rule same_syms_shift)
    have le3: "edge_length e2 + 1 \<le> edge_length e + 1 - (k + 1)" using e2 by simp
    have s2: "same_syms S (edge.first_obj_index e2) (a + (k + 1)) (edge_length e2 + 1)"
      using same_syms_mono[OF sh le3] e2 by simp
    have ac2: "a + (k + 1) \<le> c" using across.hyps(3) ee k by simp
    have lt2: "edge_length e2 < c - (a + (k + 1))" using across.hyps(3) ee e2 by simp
    have "a + (k + 1) + (edge_length e2 + 1) = a + (edge_length e0 + 1)" using e2 ee by simp
    with across.IH e2 ee
    have r3: "reads S M' (edge.dest_node_index e2) (a + (k + 1) + (edge_length e2 + 1)) c"
      by (simp only:)
    have r2: "reads S M' n (a + (k + 1)) c" using ac2 m2 lt2 s2 r3 by (rule reads.across)
    have r2': "reads S M' (edge.dest_node_index e1) (a + (edge_length e1 + 1)) c"
      using r2 e1 by simp
    show ?thesis using across.hyps(1) m1 lt s1 r2' by (rule reads.across)
  next
    case False
    have "fst (u, S ! nat a) < n" using tree_okD(3)[OF ok across.hyps(2)] .
    then have "fst (u, S ! nat a) \<noteq> n" by simp
    from rest[OF False this] across.hyps(2) have "M' (u, S ! nat a) = Some e0" by simp
    then show ?thesis using across.hyps(1,3,4) across.IH reads.across[of a c M' u S e0] by blast
  qed
qed

lemma map_of_update: "map_of (AList.update k v al) = (map_of al)(k \<mapsto> v)"
  by (rule update_conv')

lemma map_of_delete: "map_of (AList.delete k al) = (map_of al)(k := None)"
  by (rule delete_conv')

lemma tree_ok_leaf:
  assumes ok: "tree_ok S M n" and p: "0 \<le> p" "p \<le> n" and n: "1 \<le> n" and i: "0 \<le> i"
      and e: "edge.source_node_index e = p" "edge.dest_node_index e = n"
             "edge.first_obj_index e = i" "i \<le> edge.last_obj_index e"
  shows "tree_ok S (M((p, S ! nat i) \<mapsto> e)) (n + 1)"
proof -
  let ?M = "M((p, S ! nat i) \<mapsto> e)"
  have A: "fst k = edge.source_node_index x \<and> 0 \<le> fst k \<and> fst k < n + 1 \<and>
           1 \<le> edge.dest_node_index x \<and> edge.dest_node_index x < n + 1 \<and>
           0 \<le> edge.first_obj_index x \<and> edge.first_obj_index x \<le> edge.last_obj_index x \<and>
           snd k = S ! nat (edge.first_obj_index x)"
    if "?M k = Some x" for k x
  proof (cases "k = (p, S ! nat i)")
    case True
    with that have "x = e" by simp
    with True p n i e show ?thesis by simp
  next
    case False
    with that have m: "M k = Some x" by simp
    from ok m show ?thesis unfolding tree_ok_def by fastforce
  qed
  have old: "edge.dest_node_index x < n" if "M k = Some x" for k x
    using tree_okD(5)[OF ok that] .
  have B: "k = k'"
    if "?M k = Some x" "?M k' = Some x'" "edge.dest_node_index x = edge.dest_node_index x'"
    for k x k' x'
  proof (cases "k = (p, S ! nat i)")
    case True
    with that(1) have x: "x = e" by simp
    show ?thesis
    proof (cases "k' = (p, S ! nat i)")
      case True
      with \<open>k = (p, S ! nat i)\<close> show ?thesis by simp
    next
      case False
      with that(2) have "M k' = Some x'" by simp
      from old[OF this] that(3) x e show ?thesis by simp
    qed
  next
    case False
    with that(1) have m: "M k = Some x" by simp
    show ?thesis
    proof (cases "k' = (p, S ! nat i)")
      case True
      with that(2) have "x' = e" by simp
      with old[OF m] that(3) e show ?thesis by simp
    next
      case k': False
      with that(2) have "M k' = Some x'" by simp
      from tree_ok_inj[OF ok m this that(3)] show ?thesis by simp
    qed
  qed
  show ?thesis unfolding tree_ok_def using A B by blast
qed

lemma tree_ok_split:
  assumes ok: "tree_ok S M n"
      and e: "M (s, c0) = Some e" and k: "0 \<le> k" "k < edge_length e"
      and e1: "edge.first_obj_index e1 = edge.first_obj_index e" "edge_length e1 = k"
              "edge.source_node_index e1 = s" "edge.dest_node_index e1 = n"
      and e2: "edge.first_obj_index e2 = edge.first_obj_index e + (k + 1)"
              "edge_length e2 = edge_length e - (k + 1)"
              "edge.source_node_index e2 = n"
              "edge.dest_node_index e2 = edge.dest_node_index e"
      and c': "c' = S ! nat (edge.first_obj_index e + (k + 1))"
  shows "tree_ok S (M((s, c0) \<mapsto> e1, (n, c') \<mapsto> e2)) (n + 1)"
proof -
  let ?M = "M((s, c0) \<mapsto> e1, (n, c') \<mapsto> e2)"
  note es = tree_okD[OF ok e]
  have sn: "s < n" "0 \<le> s" using es(2,3) by simp_all
  have c0: "c0 = S ! nat (edge.first_obj_index e)" using es(8) by simp
  have A: "fst key = edge.source_node_index x \<and> 0 \<le> fst key \<and> fst key < n + 1 \<and>
           1 \<le> edge.dest_node_index x \<and> edge.dest_node_index x < n + 1 \<and>
           0 \<le> edge.first_obj_index x \<and> edge.first_obj_index x \<le> edge.last_obj_index x \<and>
           snd key = S ! nat (edge.first_obj_index x)"
    if "?M key = Some x" for key x
  proof (cases "key = (n, c')")
    case True
    with that have "x = e2" by simp
    with True e2 c' es k sn show ?thesis by (simp add: edge_length_def)
  next
    case False
    show ?thesis
    proof (cases "key = (s, c0)")
      case True
      with that False sn have "x = e1" by auto
      with True e1 c0 es k sn show ?thesis by (simp add: edge_length_def)
    next
      case k2: False
      with that False have m: "M key = Some x" by auto
      from ok m show ?thesis unfolding tree_ok_def by fastforce
    qed
  qed
  have old: "edge.dest_node_index x < n" if "M key = Some x" for key x
    using tree_okD(5)[OF ok that] .
  define cls where "cls = (\<lambda>key::int \<times> 'a. if key = (n, c') then (2::nat) else if key = (s, c0) then 1 else 0)"
  have D: "(cls key = 2 \<longrightarrow> edge.dest_node_index x = edge.dest_node_index e) \<and>
           (cls key = 1 \<longrightarrow> edge.dest_node_index x = n) \<and>
           (cls key = 0 \<longrightarrow> M key = Some x \<and> key \<noteq> (s, c0))"
    if "?M key = Some x" for key x
    using that e1 e2 sn by (auto simp: cls_def split: if_splits)
  have B: "key = key'"
    if a: "?M key = Some x" and b: "?M key' = Some x'"
      and dd: "edge.dest_node_index x = edge.dest_node_index x'"
    for key x key' x'
  proof -
    have c2: "cls q = 2 \<Longrightarrow> q = (n, c')" for q by (simp add: cls_def split: if_splits)
    have c1: "cls q = 1 \<Longrightarrow> q = (s, c0)" for q by (simp add: cls_def split: if_splits)
    have cases3: "cls q = 0 \<or> cls q = 1 \<or> cls q = 2" for q by (simp add: cls_def)
    have no: "M q = Some y \<Longrightarrow> q \<noteq> (s, c0) \<Longrightarrow> edge.dest_node_index y \<noteq> edge.dest_node_index e"
      for q y using tree_ok_inj[OF ok _ e, of q y] by auto
    from cases3[of key] cases3[of key'] show ?thesis
    proof (elim disjE)
      assume "cls key = 0" "cls key' = 0"
      with D[OF a] D[OF b] have "M key = Some x" "M key' = Some x'" by simp_all
      from tree_ok_inj[OF ok this dd] show ?thesis by simp
    next
      assume "cls key = 0" "cls key' = 1"
      with D[OF a] D[OF b] old[of key x] dd show ?thesis by simp
    next
      assume "cls key = 0" "cls key' = 2"
      with D[OF a] D[OF b] no[of key x] dd show ?thesis by simp
    next
      assume "cls key = 1" "cls key' = 0"
      with D[OF a] D[OF b] old[of key' x'] dd show ?thesis by simp
    next
      assume "cls key = 1" "cls key' = 1"
      with c1[of key] c1[of key'] show ?thesis by simp
    next
      assume "cls key = 1" "cls key' = 2"
      with D[OF a] D[OF b] es(5) dd show ?thesis by simp
    next
      assume "cls key = 2" "cls key' = 0"
      with D[OF a] D[OF b] no[of key' x'] dd show ?thesis by simp
    next
      assume "cls key = 2" "cls key' = 1"
      with D[OF a] D[OF b] es(5) dd show ?thesis by simp
    next
      assume "cls key = 2" "cls key' = 2"
      with c2[of key] c2[of key'] show ?thesis by simp
    qed
  qed
  show ?thesis unfolding tree_ok_def using A B by blast
qed

lemma py_index_nat: "py_index xs i = Inr c \<Longrightarrow> 0 \<le> i \<Longrightarrow> c = xs ! nat i \<and> i < int (length xs)"
  by (auto simp: py_index_def split: if_splits)

lemma loop_sinvD:
  assumes "loop_sinv t i j lp"
  shows "0 \<le> i" and "tree_ok (seq t) (map_of (edges t)) (int (length (nodes t)))"
    and "starts_ok (seq t) (map_of (edges t)) j"
    and "suffixes_ok (seq t) (map_of (edges t)) j i"
    and "links_exact (seq t) (map_of (edges t)) (link_of (nodes t)) (\<lambda>v. v = lp)"
    and "active_ok (seq t) (map_of (edges t)) j (active t)"
    and "pending (seq t) (map_of (edges t)) j i lp (active t)"
  using assms unfolding loop_sinv_def by simp_all

lemma leaf_sreadyD:
  assumes "leaf_sready t i j lp p"
  shows "0 \<le> i" and "tree_ok (seq t) (map_of (edges t)) (int (length (nodes t)))"
    and "starts_ok (seq t) (map_of (edges t)) j"
    and "suffixes_ok (seq t) (map_of (edges t)) j i"
    and "links_exact (seq t) (map_of (edges t)) (link_of (nodes t))
           (\<lambda>v. v = lp \<or> (v = p \<and> v \<noteq> suffix.source_node_index (active t)))"
    and "active_ok (seq t) (map_of (edges t)) j (active t)"
    and "pending (seq t) (map_of (edges t)) j i lp (active t)"
    and "path (seq t) (map_of (edges t)) j i p"
    and "map_of (edges t) (p, seq t ! nat i) = None"
    and "0 < p \<Longrightarrow> (explicit (active t) \<and> p = suffix.source_node_index (active t)) \<or>
                  occurs_before (seq t) j i"
  using assms unfolding leaf_sready_def by simp_all

lemma phase_sinvD:
  assumes "phase_sinv t i j"
  shows "0 \<le> i" and "tree_ok (seq t) (map_of (edges t)) (int (length (nodes t)))"
    and "starts_ok (seq t) (map_of (edges t)) j"
    and "suffixes_ok (seq t) (map_of (edges t)) j i"
    and "links_exact (seq t) (map_of (edges t)) (link_of (nodes t)) (\<lambda>v. False)"
    and "active_ok (seq t) (map_of (edges t)) j (active t)"
  using assms unfolding phase_sinv_def by simp_all

lemma active_okD:
  assumes "active_ok S M j a"
  shows "0 \<le> j" and "path S M j (suffix.first_obj_index a) (suffix.source_node_index a)"
    and "reads S M (suffix.source_node_index a) (suffix.first_obj_index a) (suffix.last_obj_index a)"
  using assms unfolding active_ok_def by simp_all

lemma starts_okD:
  "starts_ok S M j \<Longrightarrow> M k = Some e \<Longrightarrow>
     \<exists>a. 0 \<le> a \<and> a < j \<and> path S M a (edge.first_obj_index e) (fst k)"
  unfolding starts_ok_def by blast

lemma links_exactD:
  "links_exact S M lk X \<Longrightarrow> 0 < v \<Longrightarrow> 0 \<le> lk v \<Longrightarrow> \<not> X v \<Longrightarrow>
     \<exists>a b. 0 \<le> a \<and> b \<le> int (length S) \<and> path S M a b v \<and> path S M (a + 1) b (lk v)"
  unfolding links_exact_def by blast

lemma links_exact_transfer:
  assumes old: "links_exact S M lk X"
      and pt: "\<And>a b v. path S M a b v \<Longrightarrow> path S M' a b v"
      and lk: "\<And>v. 0 < v \<Longrightarrow> 0 \<le> lk' v \<Longrightarrow> \<not> X' v \<Longrightarrow>
                 (lk' v = lk v \<and> \<not> X v) \<or>
                 (\<exists>a b. 0 \<le> a \<and> b \<le> int (length S) \<and>
                        path S M' a b v \<and> path S M' (a + 1) b (lk' v))"
  shows "links_exact S M' lk' X'"
  unfolding links_exact_def
proof (intro allI impI)
  fix v assume h: "0 < v \<and> 0 \<le> lk' v \<and> \<not> X' v"
  then have v: "0 < v" "0 \<le> lk' v" "\<not> X' v" by simp_all
  from lk[OF v] show "\<exists>a b. 0 \<le> a \<and> b \<le> int (length S) \<and>
                        path S M' a b v \<and> path S M' (a + 1) b (lk' v)"
  proof
    assume o: "lk' v = lk v \<and> \<not> X v"
    with v have "0 \<le> lk v" "\<not> X v" by simp_all
    from links_exactD[OF old v(1) this] obtain a b where
      ab: "0 \<le> a" "b \<le> int (length S)" and p1: "path S M a b v"
      and p2: "path S M (a + 1) b (lk v)" by blast
    from pt[OF p1] pt[OF p2] o ab show ?thesis by auto
  next
    assume "\<exists>a b. 0 \<le> a \<and> b \<le> int (length S) \<and>
                        path S M' a b v \<and> path S M' (a + 1) b (lk' v)"
    then show ?thesis .
  qed
qed

lemma starts_ok_transfer:
  assumes old: "starts_ok S M j"
      and pt: "\<And>a b v. path S M a b v \<Longrightarrow> path S M' a b v"
      and new: "\<And>k e. M' k = Some e \<Longrightarrow> M k \<noteq> Some e \<Longrightarrow>
                  \<exists>a. 0 \<le> a \<and> a < j' \<and> path S M' a (edge.first_obj_index e) (fst k)"
      and j: "j \<le> j'"
  shows "starts_ok S M' j'"
  unfolding starts_ok_def
proof (intro allI impI)
  fix k e assume m: "M' k = Some e"
  show "\<exists>a. 0 \<le> a \<and> a < j' \<and> path S M' a (edge.first_obj_index e) (fst k)"
  proof (cases "M k = Some e")
    case True
    from starts_okD[OF old True] obtain a where "0 \<le> a" "a < j"
      and p: "path S M a (edge.first_obj_index e) (fst k)" by blast
    with pt[OF p] j show ?thesis by auto
  next
    case False
    from new[OF m False] show ?thesis .
  qed
qed

lemma suffixes_ok_transfer:
  assumes "suffixes_ok S M j i"
      and "\<And>u a c. reads S M u a c \<Longrightarrow> reads S M' u a c"
  shows "suffixes_ok S M' j i"
  using assms unfolding suffixes_ok_def by blast

lemma active_ok_transfer:
  assumes "active_ok S M j a"
      and "\<And>a b v. path S M a b v \<Longrightarrow> path S M' a b v"
      and "\<And>u a c. reads S M u a c \<Longrightarrow> reads S M' u a c"
  shows "active_ok S M' j a"
  using assms unfolding active_ok_def by blast

lemma pending_transfer:
  assumes "pending S M j i lp a"
      and "\<And>a b v. path S M a b v \<Longrightarrow> path S M' a b v"
      and "explicit a \<Longrightarrow> explicit a'"
  shows "pending S M' j i lp a'"
  using assms unfolding pending_def by blast

text \<open>The head of a pass when the active point is a node.\<close>

lemma shead_at_node:
  assumes inv: "loop_sinv t i j lp"
      and ex: "explicit (active t)" and c: "py_index (seq t) i = Inr c"
      and m: "map_of (edges t) (suffix.source_node_index (active t), c) = None"
      and la: "suffix.last_obj_index (active t) = i - 1"
      and k1: "- 1 \<le> suffix_length (active t)"
  shows "leaf_sready t i j lp (suffix.source_node_index (active t))"
proof -
  note i0 = loop_sinvD(1)[OF inv] and ok = loop_sinvD(2)[OF inv] and st = loop_sinvD(3)[OF inv]
    and su = loop_sinvD(4)[OF inv] and le = loop_sinvD(5)[OF inv] and ao = loop_sinvD(6)[OF inv]
    and pe = loop_sinvD(7)[OF inv]
  have f: "suffix.first_obj_index (active t) = i"
    using ex k1 la by (simp add: explicit_def suffix_length_def)
  have ci: "c = seq t ! nat i" using py_index_nat[OF c i0] by simp
  have p: "path (seq t) (map_of (edges t)) j i (suffix.source_node_index (active t))"
    using active_okD(2)[OF ao] f by simp
  have none: "map_of (edges t) (suffix.source_node_index (active t), seq t ! nat i) = None"
    using m ci by simp
  have le': "links_exact (seq t) (map_of (edges t)) (link_of (nodes t))
           (\<lambda>v. v = lp \<or> (v = suffix.source_node_index (active t) \<and>
                           v \<noteq> suffix.source_node_index (active t)))"
    using le by simp
  show ?thesis
    unfolding leaf_sready_def using i0 ok st su le' ao pe p none ex by simp
qed

text \<open>What \<open>_split_edge\<close> does to the table, as a map.\<close>

lemma split_map:
  assumes ok: "tree_ok S M n"
      and e: "M (s, c) = Some e"
      and M1: "M1 = M((s, c) \<mapsto> e1, (n, c') \<mapsto> e2)"
  shows "M1 (s, c) = Some e1" and "M1 (n, c') = Some e2"
    and "\<And>key. key \<noteq> (s, c) \<Longrightarrow> fst key \<noteq> n \<Longrightarrow> M1 key = M key"
    and "\<And>y. y \<noteq> c' \<Longrightarrow> M1 (n, y) = None"
    and "\<And>key x. M1 key = Some x \<Longrightarrow> key \<noteq> (s, c) \<Longrightarrow> key \<noteq> (n, c') \<Longrightarrow> M key = Some x"
proof -
  have sn: "s < n" using tree_okD(3)[OF ok e] by simp
  show "M1 (s, c) = Some e1" using sn by (simp add: M1)
  show "M1 (n, c') = Some e2" by (simp add: M1)
  show "M1 key = M key" if "key \<noteq> (s, c)" "fst key \<noteq> n" for key
    using that by (cases key) (auto simp: M1)
  show "M1 (n, y) = None" if "y \<noteq> c'" for y
  proof -
    have "M (n, y) = None"
    proof (cases "M (n, y)")
      case None
      then show ?thesis .
    next
      case (Some x)
      from tree_okD(3)[OF ok Some] show ?thesis by simp
    qed
    with that sn show ?thesis by (simp add: M1)
  qed
  show "M key = Some x" if "M1 key = Some x" "key \<noteq> (s, c)" "key \<noteq> (n, c')" for key x
    using that by (simp add: M1)
qed

lemma shead_in_edge:
  assumes inv: "loop_sinv t i j lp" and can: "canonical t (active t)"
      and ne: "\<not> explicit (active t)"
      and cf: "py_index (seq t) (suffix.first_obj_index (active t)) = Inr c"
      and m: "map_of (edges t) (suffix.source_node_index (active t), c) = Some e"
      and x: "py_index (seq t) (edge.first_obj_index e + suffix_length (active t) + 1) = Inr x"
      and y: "py_index (seq t) i = Inr y" and xy: "x \<noteq> y"
      and sp: "split_edge t e (active t) = Inr (t1, p)"
      and la: "suffix.last_obj_index (active t) = i - 1"
  shows "leaf_sready t1 i j lp p"
proof -
  let ?S = "seq t"
  let ?M = "map_of (edges t)"
  let ?a = "active t"
  let ?s = "suffix.source_node_index ?a"
  let ?f = "suffix.first_obj_index ?a"
  let ?k = "suffix_length ?a"
  let ?n = "int (length (nodes t))"
  let ?lk = "link_of (nodes t)"
  note i0 = loop_sinvD(1)[OF inv] and ok = loop_sinvD(2)[OF inv] and st = loop_sinvD(3)[OF inv]
    and su = loop_sinvD(4)[OF inv] and le = loop_sinvD(5)[OF inv] and ao = loop_sinvD(6)[OF inv]
    and pe = loop_sinvD(7)[OF inv]
  note j0 = active_okD(1)[OF ao] and pa = active_okD(2)[OF ao] and ra = active_okD(3)[OF ao]
  note es = tree_okD[OF ok m]
  have k0: "0 \<le> ?k" using ne by (simp add: explicit_def suffix_length_def)
  have kin: "?k < edge_length e" using canonical_edge[OF can ne cf m] .
  have fk: "?f + (?k + 1) = i" using la by (simp add: suffix_length_def)
  have jf: "j \<le> ?f" using path_le[OF pa ok] .
  have f0: "0 \<le> ?f" using jf j0 by simp
  have src: "edge.source_node_index e = ?s" using es(1) by simp
  have sn: "?s < ?n" "0 \<le> ?s" using es(2,3) by simp_all
  have fe0: "0 \<le> edge.first_obj_index e" using es(6) .
  have cS: "c = ?S ! nat ?f" using py_index_nat[OF cf f0] by simp
  have cE: "c = ?S ! nat (edge.first_obj_index e)" using es(8) by simp
  have yS: "y = ?S ! nat i" using py_index_nat[OF y i0] by simp
  have xS: "x = ?S ! nat (edge.first_obj_index e + (?k + 1))"
    using py_index_nat[OF x] fe0 k0 by (simp add: add.assoc)
  from split_edge_result[OF sp] obtain c0 c' where
    c0: "py_index ?S (edge.first_obj_index e) = Inr c0"
    and c': "py_index ?S (edge.first_obj_index e + (?k + 1)) = Inr c'"
    and p: "p = ?n"
    and nd: "nodes t1 = nodes t @ [\<lparr>suffix_node = ?s\<rparr>]"
    and ed: "edges t1 =
             AList.update (p, c')
               (e\<lparr>edge.first_obj_index := edge.first_obj_index e + (?k + 1),
                  edge.source_node_index := p\<rparr>)
               (AList.update (?s, c0)
                  (Edge (edge.first_obj_index e) (edge.first_obj_index e + ?k) ?s p)
                  (AList.delete (edge.source_node_index e, c0) (edges t)))"
    and ac: "active t1 = ?a" and at: "same_attrs t t1"
    by blast
  have sq: "seq t1 = ?S" using at by (simp add: same_attrs_def)
  have c0c: "c0 = c" using py_index_nat[OF c0 fe0] cE by simp
  have c'S: "c' = ?S ! nat (edge.first_obj_index e + (?k + 1))"
    using py_index_nat[OF c'] fe0 k0 by simp
  have xc: "x = c'" using xS c'S by simp
  define e1 where "e1 = Edge (edge.first_obj_index e) (edge.first_obj_index e + ?k) ?s ?n"
  define e2 where "e2 = e\<lparr>edge.first_obj_index := edge.first_obj_index e + (?k + 1),
                          edge.source_node_index := ?n\<rparr>"
  define M1 where "M1 = ?M((?s, c) \<mapsto> e1, (?n, c') \<mapsto> e2)"
  have e1: "edge.first_obj_index e1 = edge.first_obj_index e" "edge_length e1 = ?k"
           "edge.source_node_index e1 = ?s" "edge.dest_node_index e1 = ?n"
    by (simp_all add: e1_def Edge_def edge_length_def)
  have e2: "edge.first_obj_index e2 = edge.first_obj_index e + (?k + 1)"
           "edge_length e2 = edge_length e - (?k + 1)"
           "edge.source_node_index e2 = ?n"
           "edge.dest_node_index e2 = edge.dest_node_index e"
    by (simp_all add: e2_def edge_length_def)
  have M1: "map_of (edges t1) = M1"
    unfolding ed p c0c src M1_def e1_def e2_def
    by (simp add: map_of_update map_of_delete)
  have len1: "int (length (nodes t1)) = ?n + 1" by (simp add: nd)
  have lk1: "link_of (nodes t1) = ?lk(?n := ?s)" by (simp add: nd link_of_append)
  note sm = split_map[OF ok m M1_def]
  have ok1: "tree_ok ?S M1 (?n + 1)"
    unfolding M1_def using ok m k0 kin e1 e2 c'S by (rule tree_ok_split)
  have PS: "path ?S M1 a b v" if "path ?S ?M a b v" for a b v
    using that ok m k0 kin sm(1) e1(1,2,4) sm(2) e2(1,2,4) sm(3) by (rule path_split)
  have RS: "reads ?S M1 u a b" if "reads ?S ?M u a b" for u a b
    using that ok m k0 kin sm(1) e1(1,2,4) sm(2) e2(1,2,4) c'S sm(3) by (rule reads_split)
  from starts_okD[OF st m] obtain a0 where a0: "0 \<le> a0" "a0 < j"
    and pa0: "path ?S ?M a0 (edge.first_obj_index e) ?s" by auto
  have ps1: "path ?S M1 a0 (edge.first_obj_index e + (?k + 1)) ?n"
  proof -
    have "same_syms ?S (edge.first_obj_index e1) (edge.first_obj_index e) (edge_length e1 + 1)"
      by (simp add: e1)
    from path.along[OF PS[OF pa0] sm(1) this] show ?thesis by (simp add: e1)
  qed
  have st1: "starts_ok ?S M1 j"
  proof (rule starts_ok_transfer[OF st PS _ order_refl])
    fix key z assume z: "M1 key = Some z" and nz: "?M key \<noteq> Some z"
    show "\<exists>a. 0 \<le> a \<and> a < j \<and> path ?S M1 a (edge.first_obj_index z) (fst key)"
    proof (cases "key = (?n, c')")
      case True
      with z sm(2) have "z = e2" by simp
      with True ps1 a0 e2 show ?thesis by auto
    next
      case False
      show ?thesis
      proof (cases "key = (?s, c)")
        case True
        with z sm(1) have "z = e1" by simp
        with True PS[OF pa0] a0 e1 show ?thesis by auto
      next
        case k2: False
        from sm(5)[OF z k2 False] nz show ?thesis by simp
      qed
    qed
  qed
  have su1: "suffixes_ok ?S M1 j i" using su RS by (rule suffixes_ok_transfer)
  have ao1: "active_ok ?S M1 j ?a" using ao PS RS by (rule active_ok_transfer)
  have pe1: "pending ?S M1 j i lp ?a" using pe PS by (rule pending_transfer)
  have le1: "links_exact ?S M1 (?lk(?n := ?s)) (\<lambda>v. v = lp \<or> (v = ?n \<and> v \<noteq> ?s))"
  proof (rule links_exact_transfer[OF le PS])
    fix v assume "0 < v" "0 \<le> (?lk(?n := ?s)) v" "\<not> (v = lp \<or> (v = ?n \<and> v \<noteq> ?s))"
    with sn have "(?lk(?n := ?s)) v = ?lk v \<and> \<not> v = lp" by auto
    then show "((?lk(?n := ?s)) v = ?lk v \<and> \<not> v = lp) \<or>
               (\<exists>a b. 0 \<le> a \<and> b \<le> int (length ?S) \<and>
                      path ?S M1 a b v \<and> path ?S M1 (a + 1) b ((?lk(?n := ?s)) v))"
      by (rule disjI1)
  qed
  have fl: "?f \<le> suffix.last_obj_index ?a" using k0 by (simp add: suffix_length_def)
  have sy: "same_syms ?S (edge.first_obj_index e) ?f (?k + 1)"
  proof -
    from reads_inv[OF ra] fl obtain e' where
      m': "?M (?s, ?S ! nat ?f) = Some e'"
      and alt: "(suffix.last_obj_index ?a - ?f \<le> edge_length e' \<and>
                 same_syms ?S (edge.first_obj_index e') ?f (suffix.last_obj_index ?a - ?f + 1)) \<or>
                edge_length e' < suffix.last_obj_index ?a - ?f"
      by auto
    from m' m cS have "e' = e" by simp
    with alt kin show ?thesis by (auto simp: suffix_length_def)
  qed
  have pn: "path ?S M1 j i ?n"
  proof -
    have "same_syms ?S (edge.first_obj_index e1) ?f (edge_length e1 + 1)" using sy e1 by simp
    from path.along[OF PS[OF pa] sm(1) this] show ?thesis using fk by (simp add: e1)
  qed
  have none: "M1 (?n, ?S ! nat i) = None"
    using sm(4)[of y] xy xc yS by simp
  have ob: "occurs_before ?S j i"
  proof -
    from path_unique[OF pa pa0 ok] have len: "?f - j = edge.first_obj_index e - a0"
      and s1: "same_syms ?S j a0 (?f - j)" by blast+
    have eq: "a0 + (?f - j) = edge.first_obj_index e" "j + (?f - j) = ?f" using len by arith+
    have "same_syms ?S (a0 + (?f - j)) (j + (?f - j)) (?k + 1)" unfolding eq using sy .
    from same_syms_append[OF same_syms_sym[OF s1] this] jf
    have "same_syms ?S a0 j (?f - j + (?k + 1))" by simp
    moreover have ij: "?f - j + (?k + 1) = i - j" using fk by arith
    ultimately have s2: "same_syms ?S a0 j (i - j)" by simp
    have "a0 + (i - j) = edge.first_obj_index e + (?k + 1)" using len fk by arith
    then have "?S ! nat (a0 + (i - j)) \<noteq> ?S ! nat i" using xy xS yS by simp
    with a0 s2 show ?thesis unfolding occurs_before_def by blast
  qed
  show ?thesis
    unfolding leaf_sready_def sq M1 len1 lk1 ac p
    using i0 ok1 st1 su1 le1 ao1 pe1 pn none ob by simp
qed

lemma head_sinv:
  assumes h: "add_prefix_head t i = Inr (Some (t1, p))"
      and inv: "loop_sinv t i j lp" and g: "loop_ginv d t i lp"
      and can: "canonical t (active t)"
  shows "leaf_sready t1 i j lp p"
  using h
proof (cases rule: add_prefix_head_cases)
  case (at_node c)
  have k1: "- 1 \<le> suffix_length (active t)"
    using loop_ginvD(4)[OF g] at_node(2,3) by auto
  from shead_at_node[OF inv at_node(1,2,3) loop_ginvD(2)[OF g] k1] at_node(4,5)
  show ?thesis by simp
next
  case (in_edge c e x y)
  from shead_in_edge[OF inv can in_edge(1,2,3,4,5,6,7) loop_ginvD(2)[OF g]] show ?thesis .
qed

lemma leaf_readyD:
  assumes "leaf_ready d t i lp p"
  shows "ginv d t" and "suffix.last_obj_index (active t) = i - 1"
    and "- 1 \<le> suffix_length (active t)"
    and "branch (link_of (nodes t)) p" and "d p = adepth d (active t)"
    and "0 < lp \<Longrightarrow> 0 \<le> link_of (nodes t) lp \<and> d p < d lp"
  using assms unfolding leaf_ready_def by simp_all

lemma suffixes_okD:
  assumes "suffixes_ok S M j i"
  shows "\<And>h. 0 \<le> h \<Longrightarrow> h < j \<Longrightarrow> reads S M 0 h (int (length S) - 1)"
    and "\<And>h. j \<le> h \<Longrightarrow> reads S M 0 h (i - 1)"
  using assms unfolding suffixes_ok_def by simp_all

lemma pendingD:
  assumes "pending S M j i lp a" and "0 < lp"
  shows "1 \<le> j" and "path S M (j - 1) i lp" and "explicit a \<or> occurs_before S (j - 1) i"
  using assms unfolding pending_def by simp_all

text \<open>The new leaf and the move of the active point along the suffix link.\<close>

lemma extend_sinv:
  assumes x: "add_prefix_extend t1 i lp p = Inr t2"
      and sr: "leaf_sready t1 i j lp p"
      and gr: "leaf_ready d t1 i lp p"
  shows "loop_sinv t2 i (j + 1) p"
proof -
  let ?S = "seq t1"
  let ?M = "map_of (edges t1)"
  let ?a = "active t1"
  let ?s = "suffix.source_node_index ?a"
  let ?f = "suffix.first_obj_index ?a"
  let ?k = "suffix_length ?a"
  let ?n = "int (length (nodes t1))"
  let ?lk = "link_of (nodes t1)"
  note i0 = leaf_sreadyD(1)[OF sr] and ok = leaf_sreadyD(2)[OF sr] and st = leaf_sreadyD(3)[OF sr]
    and su = leaf_sreadyD(4)[OF sr] and le = leaf_sreadyD(5)[OF sr] and ao = leaf_sreadyD(6)[OF sr]
    and pe = leaf_sreadyD(7)[OF sr] and pp = leaf_sreadyD(8)[OF sr]
    and none = leaf_sreadyD(9)[OF sr] and nx = leaf_sreadyD(10)[OF sr]
  note g = leaf_readyD(1)[OF gr] and la = leaf_readyD(2)[OF gr] and k1 = leaf_readyD(3)[OF gr]
    and bp = leaf_readyD(4)[OF gr] and dp = leaf_readyD(5)[OF gr] and lpa = leaf_readyD(6)[OF gr]
  note nne = ginvD(1)[OF g] and Neq = ginvD(2)[OF g] and bs = ginvD(5)[OF g]
  note j0 = active_okD(1)[OF ao] and pa = active_okD(2)[OF ao] and ra = active_okD(3)[OF ao]
  from add_prefix_extend_result[OF x] obtain c where
    c: "py_index ?S i = Inr c"
    and ed: "edges t2 = AList.update (p, c) (Edge i (N t1) p ?n) (edges t1)"
    and nd: "nodes t2 = (if lp > 0 then (nodes t1 @ [Node])[nat lp := \<lparr>suffix_node = p\<rparr>]
                         else nodes t1 @ [Node])"
    and act: "if ?s = 0
              then active t2 = ?a\<lparr>suffix.first_obj_index := ?f + 1\<rparr>
              else \<exists>n. py_index (nodes t2) ?s = Inr n \<and>
                       active t2 = ?a\<lparr>suffix.source_node_index := suffix_node n\<rparr>"
    and at: "same_attrs t1 t2"
    by blast
  have sq: "seq t2 = ?S" using at by (simp add: same_attrs_def)
  have cS: "c = ?S ! nat i" and iL: "i < int (length ?S)" using py_index_nat[OF c i0] by simp_all
  have iN: "i \<le> N t1" using iL Neq by simp
  define leaf where "leaf = Edge i (N t1) p ?n"
  define M2 where "M2 = ?M((p, ?S ! nat i) \<mapsto> leaf)"
  have lf: "edge.source_node_index leaf = p" "edge.dest_node_index leaf = ?n"
           "edge.first_obj_index leaf = i" "i \<le> edge.last_obj_index leaf"
           "edge_length leaf = N t1 - i"
    using iN by (simp_all add: leaf_def Edge_def edge_length_def)
  have M2: "map_of (edges t2) = M2"
    unfolding ed cS M2_def leaf_def by (simp add: map_of_update)
  have len2: "int (length (nodes t2)) = ?n + 1" by (simp add: nd)
  have mono: "M2 key = Some z" if "?M key = Some z" for key z
    using that none by (auto simp: M2_def)
  have m2p: "M2 (p, ?S ! nat i) = Some leaf" by (simp add: M2_def)
  have new: "key = (p, ?S ! nat i) \<and> z = leaf" if "M2 key = Some z" "?M key \<noteq> Some z" for key z
    using that by (auto simp: M2_def split: if_splits)
  have PM: "path ?S M2 a b v" if "path ?S ?M a b v" for a b v
    using that mono by (rule path_mono)
  have RM: "reads ?S M2 u a b" if "reads ?S ?M u a b" for u a b
    using that mono by (rule reads_mono)
  have pr: "0 \<le> p" "p < ?n" using branch_range[OF bp nne] by simp_all
  have n1: "1 \<le> ?n" using nne by (cases "nodes t1") simp_all
  have ok2: "tree_ok ?S M2 (?n + 1)"
    unfolding M2_def using ok pr(1) _ n1 i0 lf(1,2,3,4) by (rule tree_ok_leaf) (use pr in simp)
  have pj2: "path ?S M2 j i p" using PM[OF pp] .
  define lk2 where "lk2 = (if lp > 0 then ?lk(lp := p) else ?lk)"
  have lk2: "link_of (nodes t2) = lk2"
  proof (cases "lp > 0")
    case True
    with lpa have "0 \<le> ?lk lp" by simp
    then have "lp < ?n" using link_of_range[of "nodes t1" lp] by simp
    with True show ?thesis using link_of_extend[of lp "nodes t1" p] by (simp add: nd lk2_def)
  next
    case False
    then show ?thesis by (simp add: nd lk2_def)
  qed
  have st2: "starts_ok ?S M2 (j + 1)"
  proof (rule starts_ok_transfer[OF st PM])
    fix key z assume "M2 key = Some z" "?M key \<noteq> Some z"
    from new[OF this] pj2 lf(3) j0
    show "\<exists>a. 0 \<le> a \<and> a < j + 1 \<and> path ?S M2 a (edge.first_obj_index z) (fst key)"
      by (intro exI[of _ j]) simp
  next
    show "j \<le> j + 1" by simp
  qed
  have rj: "reads ?S M2 0 j (int (length ?S) - 1)"
  proof -
    have a1: "i \<le> int (length ?S) - 1" using iL by simp
    have a2: "int (length ?S) - 1 - i \<le> edge_length leaf" using lf(5) Neq by simp
    have a3: "same_syms ?S (edge.first_obj_index leaf) i (int (length ?S) - 1 - i + 1)"
      using lf(3) by simp
    have rl: "reads ?S M2 p i (int (length ?S) - 1)" using a1 m2p a2 a3 by (rule reads.inside)
    have a4: "i - 1 \<le> int (length ?S) - 1" using iL by simp
    from reads_prepend[OF pj2 ok2 rl a4] show ?thesis .
  qed
  have su2: "suffixes_ok ?S M2 (j + 1) i"
    unfolding suffixes_ok_def
  proof (intro conjI allI impI)
    fix h assume h: "0 \<le> h \<and> h < j + 1"
    show "reads ?S M2 0 h (int (length ?S) - 1)"
    proof (cases "h = j")
      case True
      with rj show ?thesis by simp
    next
      case False
      with h have "0 \<le> h" "h < j" by simp_all
      from RM[OF suffixes_okD(1)[OF su this]] show ?thesis .
    qed
  next
    fix h assume "j + 1 \<le> h"
    then have "j \<le> h" by simp
    from RM[OF suffixes_okD(2)[OF su this]] show "reads ?S M2 0 h (i - 1)" .
  qed
  have ds: "d ?s \<le> d p" using dp k1 by (simp add: adepth_def)
  have slp: "?s \<noteq> lp" if "0 < lp" using lpa[OF that] ds by auto
  have le2: "links_exact ?S M2 lk2 (\<lambda>v. v = p)"
  proof (rule links_exact_transfer[OF le PM])
    fix v assume v: "0 < v" "0 \<le> lk2 v" "\<not> v = p"
    show "(lk2 v = ?lk v \<and> \<not> (v = lp \<or> (v = p \<and> v \<noteq> ?s))) \<or>
          (\<exists>a b. 0 \<le> a \<and> b \<le> int (length ?S) \<and>
                 path ?S M2 a b v \<and> path ?S M2 (a + 1) b (lk2 v))"
    proof (cases "v = lp")
      case True
      with v(1) have lp0: "0 < lp" by simp
      note pd = pendingD[OF pe lp0]
      have l: "lk2 v = p" using True lp0 by (simp add: lk2_def)
      have p1: "path ?S M2 (j - 1) i v" using PM[OF pd(2)] True by simp
      have p2: "path ?S M2 (j - 1 + 1) i (lk2 v)" using pj2 l by simp
      have "0 \<le> j - 1" "i \<le> int (length ?S)" using pd(1) iL by simp_all
      with p1 p2 show ?thesis by blast
    next
      case False
      with v show ?thesis by (simp add: lk2_def)
    qed
  qed
  have fl: "?f \<le> i" using k1 la by (simp add: suffix_length_def)
  have la2: "suffix.last_obj_index (active t2) = i - 1"
    using act la by (auto split: if_splits)
  have ex2: "explicit (active t2)" if "explicit ?a" "?s \<noteq> 0"
    using act that by (auto simp: explicit_def)
  have ao2: "active_ok ?S M2 (j + 1) (active t2)"
  proof (cases "?s = 0")
    case True
    with act have a2: "active t2 = ?a\<lparr>suffix.first_obj_index := ?f + 1\<rparr>" by simp
    have fj: "?f = j" using path_root[OF pa[unfolded True] ok] .
    have p0: "path ?S M2 (j + 1) (j + 1) 0" by (rule path.at_root)
    have "j \<le> j + 1" by simp
    from RM[OF suffixes_okD(2)[OF su this]] have r0: "reads ?S M2 0 (j + 1) (i - 1)" .
    show ?thesis
      unfolding active_ok_def using j0 p0 r0 by (simp add: a2 True fj la)
  next
    case False
    with act obtain nn where nn: "py_index (nodes t2) ?s = Inr nn"
      and a2: "active t2 = ?a\<lparr>suffix.source_node_index := suffix_node nn\<rparr>"
      by auto
    from False bs have s0: "0 < ?s" and ls: "0 \<le> ?lk ?s" by (auto simp: branch_def)
    have nlp: "?s \<noteq> lp" using slp s0 by (cases "0 < lp") auto
    have lks: "lk2 ?s = ?lk ?s" using nlp by (simp add: lk2_def)
    have sn: "suffix_node nn = ?lk ?s"
      using link_of_py_index[OF _ nn] s0 lk2 lks by simp
    have nX: "\<not> (?s = lp \<or> (?s = p \<and> ?s \<noteq> ?s))" using nlp by simp
    from links_exactD[OF le s0 ls nX] obtain a b where
      a0: "0 \<le> a" and p1: "path ?S ?M a b ?s" and p2: "path ?S ?M (a + 1) b (?lk ?s)" by blast
    from path_unique[OF p1 pa ok] have len: "b - a = ?f - j"
      and s1: "same_syms ?S a j (b - a)" by blast+
    have "same_syms ?S (a + 1) (j + 1) (b - a - 1)"
      using same_syms_shift[OF s1, of 1] by simp
    moreover have "b - a - 1 = b - (a + 1)" by arith
    ultimately have s2: "same_syms ?S (a + 1) (j + 1) (b - (a + 1))" by simp
    from path_transfer[OF p2 ok s2] have "path ?S ?M (j + 1) (j + 1 + (b - (a + 1))) (?lk ?s)" .
    moreover have "j + 1 + (b - (a + 1)) = ?f" using len by arith
    ultimately have p3: "path ?S ?M (j + 1) ?f (?lk ?s)" by simp
    have "j \<le> j + 1" by simp
    from suffixes_okD(2)[OF su this] have r0: "reads ?S ?M 0 (j + 1) (i - 1)" .
    have "?f - 1 \<le> i - 1" using fl by simp
    from reads_thru[OF p3 ok r0 this] have r3: "reads ?S ?M (?lk ?s) ?f (i - 1)" .
    show ?thesis
      unfolding active_ok_def using j0 PM[OF p3] RM[OF r3] by (simp add: a2 sn la)
  qed
  have pe2: "pending ?S M2 (j + 1) i p (active t2)"
    unfolding pending_def
  proof (intro impI conjI)
    assume p0: "0 < p"
    show "1 \<le> j + 1" using j0 by simp
    show "path ?S M2 (j + 1 - 1) i p" using pj2 by simp
    from nx[OF p0] show "explicit (active t2) \<or> occurs_before ?S (j + 1 - 1) i"
    proof
      assume "explicit ?a \<and> p = ?s"
      with p0 ex2 show ?thesis by simp
    next
      assume "occurs_before ?S j i"
      then show ?thesis by simp
    qed
  qed
  show ?thesis
    unfolding loop_sinv_def sq M2 len2 lk2
    using i0 ok2 st2 su2 le2 ao2 pe2 by simp
qed

text \<open>\<open>_canonize_suffix\<close> moves the active point down the path it already spells.\<close>

lemma canonize_active_ok:
  assumes c: "canonize_active t = Some (Inr t')"
      and ok: "tree_ok (seq t) (map_of (edges t)) n"
      and ao: "active_ok (seq t) (map_of (edges t)) j (active t)"
  shows "active_ok (seq t) (map_of (edges t)) j (active t')"
    and "explicit (active t) \<Longrightarrow> active t' = active t"
    and "edges t' = edges t" and "nodes t' = nodes t" and "seq t' = seq t"
proof -
  let ?S = "seq t"
  let ?M = "map_of (edges t)"
  from canonize_active_result[OF c] obtain s' where
    run: "canonize_suffix t (active t) = Some (Inr s')" and t': "t' = t\<lparr>active := s'\<rparr>" by blast
  show "edges t' = edges t" "nodes t' = nodes t" "seq t' = seq t" by (simp_all add: t')
  show "active t' = active t" if "explicit (active t)"
    using run that t' by (simp add: canonize_suffix.simps)
  have "active_ok ?S ?M j s' \<and> canonical t s'"
  proof (rule canonize_suffix_rule[where I="active_ok ?S ?M j", OF run ao])
    fix s c e
    assume I: "active_ok ?S ?M j s" and ne: "\<not> explicit s"
      and cf: "py_index ?S (suffix.first_obj_index s) = Inr c"
      and m: "?M (suffix.source_node_index s, c) = Some e"
      and el: "edge_length e \<le> suffix_length s"
    let ?u = "suffix.source_node_index s"
    let ?f = "suffix.first_obj_index s"
    let ?l = "suffix.last_obj_index s"
    note j0 = active_okD(1)[OF I] and pa = active_okD(2)[OF I] and ra = active_okD(3)[OF I]
    have f0: "0 \<le> ?f" using path_le[OF pa ok] j0 by simp
    have cS: "c = ?S ! nat ?f" using py_index_nat[OF cf f0] by simp
    have fl: "?f \<le> ?l" using ne by (simp add: explicit_def)
    from reads_inv[OF ra] fl obtain e' where
      m': "?M (?u, ?S ! nat ?f) = Some e'"
      and alt: "(?l - ?f \<le> edge_length e' \<and>
                 same_syms ?S (edge.first_obj_index e') ?f (?l - ?f + 1)) \<or>
                (edge_length e' < ?l - ?f \<and>
                 same_syms ?S (edge.first_obj_index e') ?f (edge_length e' + 1) \<and>
                 reads ?S ?M (edge.dest_node_index e') (?f + (edge_length e' + 1)) ?l)"
      by auto
    have ee: "e' = e" using m m' cS by simp
    have both: "same_syms ?S (edge.first_obj_index e) ?f (edge_length e + 1) \<and>
                reads ?S ?M (edge.dest_node_index e) (?f + (edge_length e + 1)) ?l"
      using alt
    proof
      assume h: "?l - ?f \<le> edge_length e' \<and>
                 same_syms ?S (edge.first_obj_index e') ?f (?l - ?f + 1)"
      with el ee have eq: "?l - ?f = edge_length e" by (simp add: suffix_length_def)
      with h ee have sy: "same_syms ?S (edge.first_obj_index e) ?f (edge_length e + 1)" by simp
      have "?l < ?f + (edge_length e + 1)" using eq by arith
      then have "reads ?S ?M (edge.dest_node_index e) (?f + (edge_length e + 1)) ?l"
        by (rule reads.nothing)
      with sy show ?thesis by simp
    next
      assume "edge_length e' < ?l - ?f \<and>
                 same_syms ?S (edge.first_obj_index e') ?f (edge_length e' + 1) \<and>
                 reads ?S ?M (edge.dest_node_index e') (?f + (edge_length e' + 1)) ?l"
      with ee show ?thesis by simp
    qed
    from path.along[OF pa m] both
    have p': "path ?S ?M j (?f + (edge_length e + 1)) (edge.dest_node_index e)" by simp
    show "active_ok ?S ?M j
            ((s\<lparr>suffix.first_obj_index := ?f + (edge_length e + 1)\<rparr>)
               \<lparr>suffix.source_node_index := edge.dest_node_index e\<rparr>)"
      unfolding active_ok_def using j0 p' both by simp
  qed
  then show "active_ok ?S ?M j (active t')" by (simp add: t')
qed

lemma canonize_loop_sinv:
  assumes c: "canonize_active t = Some (Inr t')" and inv: "loop_sinv t i j lp"
  shows "loop_sinv t' i j lp"
proof -
  note i0 = loop_sinvD(1)[OF inv] and ok = loop_sinvD(2)[OF inv] and st = loop_sinvD(3)[OF inv]
    and su = loop_sinvD(4)[OF inv] and le = loop_sinvD(5)[OF inv] and ao = loop_sinvD(6)[OF inv]
    and pe = loop_sinvD(7)[OF inv]
  note r = canonize_active_ok[OF c ok ao]
  have "pending (seq t) (map_of (edges t)) j i lp (active t')"
    using pe _ _ by (rule pending_transfer) (use r(2) in auto)
  with i0 ok st su le r(1) show ?thesis
    unfolding loop_sinv_def r(3,4,5) by simp
qed

lemma canonize_phase_sinv:
  assumes c: "canonize_active t = Some (Inr t')" and inv: "phase_sinv t i j"
  shows "phase_sinv t' i j"
proof -
  note i0 = phase_sinvD(1)[OF inv] and ok = phase_sinvD(2)[OF inv] and st = phase_sinvD(3)[OF inv]
    and su = phase_sinvD(4)[OF inv] and le = phase_sinvD(5)[OF inv] and ao = phase_sinvD(6)[OF inv]
  note r = canonize_active_ok[OF c ok ao]
  from i0 ok st su le r(1) show ?thesis
    unfolding phase_sinv_def r(3,4,5) by simp
qed

lemma same_syms_one:
  assumes "S ! nat a = S ! nat b"
  shows "same_syms S a b 1"
  unfolding same_syms_def
proof
  fix m :: int assume "m \<in> {0 ..< 1}"
  then have "m = 0" by auto
  with assms show "S ! nat (a + m) = S ! nat (b + m)" by simp
qed

text \<open>
  An active point inside an edge: the symbols of the active suffix are the first symbols
  of the edge.
\<close>

lemma active_inside:
  assumes ra: "reads S M s f l" and m: "M (s, S ! nat f) = Some e"
      and fl: "f \<le> l" and kin: "l - f < edge_length e"
  shows "same_syms S (edge.first_obj_index e) f (l - f + 1)"
proof -
  from reads_inv[OF ra] fl obtain e' where
    m': "M (s, S ! nat f) = Some e'"
    and alt: "(l - f \<le> edge_length e' \<and>
               same_syms S (edge.first_obj_index e') f (l - f + 1)) \<or>
              edge_length e' < l - f"
    by auto
  from m m' have "e' = e" by simp
  with alt kin show ?thesis by auto
qed

text \<open>
  When the loop ends, the active suffix followed by the new symbol is in the tree: it
  stands at an earlier place of the sequence too.
\<close>

lemma break_sem:
  assumes ok: "tree_ok S M n" and st: "starts_ok S M j"
      and pa: "path S M j f s" and m: "M (s, S ! nat f) = Some e"
      and k: "- 1 \<le> k" "k < edge_length e" and fk: "f + (k + 1) = i"
      and sy: "same_syms S (edge.first_obj_index e) f (k + 1)"
      and x: "S ! nat (edge.first_obj_index e + (k + 1)) = S ! nat i"
  shows "\<exists>a0. 0 \<le> a0 \<and> a0 < j \<and> same_syms S a0 j (i - j + 1)"
    and "reads S M s f i"
proof -
  have k0: "0 \<le> k + 1" using k by simp
  have "same_syms S (edge.first_obj_index e + (k + 1)) (f + (k + 1)) 1"
    using x fk by (intro same_syms_one) simp
  from same_syms_append[OF sy this k0]
  have sy2: "same_syms S (edge.first_obj_index e) f (k + 1 + 1)" .
  have fi: "f \<le> i" using fk k by simp
  have a2: "i - f \<le> edge_length e" using fk k by simp
  have "i - f + 1 = k + 1 + 1" using fk by arith
  with sy2 have a3: "same_syms S (edge.first_obj_index e) f (i - f + 1)" by simp
  show "reads S M s f i" using fi m a2 a3 by (rule reads.inside)
  from starts_okD[OF st m] obtain a0 where a0: "0 \<le> a0" "a0 < j"
    and pa0: "path S M a0 (edge.first_obj_index e) s" by auto
  from path_unique[OF pa pa0 ok] have len: "f - j = edge.first_obj_index e - a0"
    and s1: "same_syms S j a0 (f - j)" by blast+
  have jf: "j \<le> f" using path_le[OF pa ok] .
  have eq: "a0 + (f - j) = edge.first_obj_index e" "j + (f - j) = f" using len by arith+
  have "same_syms S (a0 + (f - j)) (j + (f - j)) (k + 1 + 1)" unfolding eq using sy2 .
  from same_syms_append[OF same_syms_sym[OF s1] this] jf
  have s3: "same_syms S a0 j (f - j + (k + 1 + 1))" by simp
  have e3: "f - j + (k + 1 + 1) = i - j + 1" using fk by arith
  have "same_syms S a0 j (i - j + 1)" using s3[unfolded e3] .
  with a0 show "\<exists>a0. 0 \<le> a0 \<and> a0 < j \<and> same_syms S a0 j (i - j + 1)" by blast
qed

lemma suffixes_ok_next:
  assumes ok: "tree_ok S M n" and su: "suffixes_ok S M j i"
      and a0: "0 \<le> a0" "a0 < j" and occ: "same_syms S a0 j (i - j + 1)"
      and iL: "i < int (length S)"
  shows "suffixes_ok S M j (i + 1)"
  unfolding suffixes_ok_def
proof (intro conjI allI impI)
  fix h assume "0 \<le> h \<and> h < j"
  then show "reads S M 0 h (int (length S) - 1)" using suffixes_okD(1)[OF su] by simp
next
  fix h assume jh: "j \<le> h"
  show "reads S M 0 h (i + 1 - 1)"
  proof (cases "i < h")
    case True
    then have "i + 1 - 1 < h" by simp
    then show ?thesis by (rule reads.nothing)
  next
    case False
    then have hi: "h \<le> i" by simp
    define h' where "h' = a0 + (h - j)"
    have hj: "0 \<le> h - j" using jh by simp
    have "same_syms S (a0 + (h - j)) (j + (h - j)) (i - j + 1 - (h - j))"
      using occ hj by (rule same_syms_shift)
    moreover have "j + (h - j) = h" "i - j + 1 - (h - j) = i - h + 1" by arith+
    ultimately have sy: "same_syms S h' h (i - h + 1)" by (simp add: h'_def)
    have h'0: "0 \<le> h'" using a0 hj by (simp add: h'_def)
    have h'h: "h' + 1 \<le> h" using a0 by (simp add: h'_def)
    have r: "reads S M 0 h i"
    proof (cases "h' < j")
      case True
      from suffixes_okD(1)[OF su h'0 True] have r0: "reads S M 0 h' (int (length S) - 1)" .
      have "i - h \<le> int (length S) - 1 - h'" using iL h'h by arith
      from reads_transfer[OF r0 ok this sy] show ?thesis .
    next
      case False
      then have "j \<le> h'" by simp
      from suffixes_okD(2)[OF su this] have r0: "reads S M 0 h' (i - 1)" .
      have "i - h \<le> i - 1 - h'" using h'h by arith
      from reads_transfer[OF r0 ok this sy] show ?thesis .
    qed
    then show ?thesis by simp
  qed
qed

text \<open>
  A node waiting for its link was made because the symbol after it differs from the new
  one; so the next suffix cannot end inside an edge that goes on with the new symbol.
\<close>

lemma no_pending_inside:
  assumes ok: "tree_ok S M n" and su: "suffixes_ok S M j i"
      and pa: "path S M j f s" and m: "M (s, S ! nat f) = Some e"
      and k: "0 \<le> k" "k < edge_length e" and fk: "f + (k + 1) = i"
      and x: "S ! nat (edge.first_obj_index e + (k + 1)) = S ! nat i"
      and ob: "occurs_before S (j - 1) i" and iL: "i < int (length S)"
  shows False
proof -
  from ob obtain q where q: "0 \<le> q" "q < j - 1"
    and sq: "same_syms S q (j - 1) (i - (j - 1))"
    and dq: "S ! nat (q + (i - (j - 1))) \<noteq> S ! nat i"
    unfolding occurs_before_def by blast
  have "same_syms S (q + 1) (j - 1 + 1) (i - (j - 1) - 1)"
    using sq by (rule same_syms_shift) simp
  moreover have "j - 1 + 1 = j" "i - (j - 1) - 1 = i - j" by arith+
  ultimately have s1: "same_syms S (q + 1) j (i - j)" by simp
  have jf: "j \<le> f" using path_le[OF pa ok] .
  have fi: "f - j < i - j" using fk k by arith
  have le: "f - j \<le> i - j" using fi by simp
  have s2: "same_syms S j (q + 1) (f - j)"
    using same_syms_sym[OF same_syms_mono[OF s1 le]] .
  define b where "b = q + 1 + (f - j)"
  from path_transfer[OF pa ok s2] have pb: "path S M (q + 1) b s" by (simp add: b_def)
  have q1: "0 \<le> q + 1" "q + 1 < j" using q by simp_all
  from suffixes_okD(1)[OF su q1] have r0: "reads S M 0 (q + 1) (int (length S) - 1)" .
  have bf: "b + 1 \<le> f" using q by (simp add: b_def)
  have bl: "b - 1 \<le> int (length S) - 1" using bf fk k iL by arith
  from reads_thru[OF pb ok r0 bl] have rb: "reads S M s b (int (length S) - 1)" .
  have bL: "b \<le> int (length S) - 1" using bf fk k iL by arith
  have hd: "S ! nat b = S ! nat f"
  proof -
    have "0 \<le> f - j" using jf by simp
    from same_syms_at[OF s1 this fi] have "S ! nat (q + 1 + (f - j)) = S ! nat (j + (f - j))" .
    moreover have "j + (f - j) = f" by arith
    ultimately show ?thesis by (simp add: b_def)
  qed
  from reads_inv[OF rb] bL obtain e' where
    m': "M (s, S ! nat b) = Some e'"
    and alt: "(same_syms S (edge.first_obj_index e') b (int (length S) - 1 - b + 1)) \<or>
              (same_syms S (edge.first_obj_index e') b (edge_length e' + 1))"
    by auto
  have ee: "e' = e" using m m' hd by simp
  have bk: "b + (k + 1) < int (length S)" using bf fk iL by arith
  have k1: "0 \<le> k + 1" using k by simp
  have at: "S ! nat (edge.first_obj_index e + (k + 1)) = S ! nat (b + (k + 1))"
    using alt
  proof
    assume h: "same_syms S (edge.first_obj_index e') b (int (length S) - 1 - b + 1)"
    have "k + 1 < int (length S) - 1 - b + 1" using bk by arith
    from same_syms_at[OF h k1 this] ee show ?thesis by simp
  next
    assume h: "same_syms S (edge.first_obj_index e') b (edge_length e' + 1)"
    have "k + 1 < edge_length e' + 1" using k ee by simp
    from same_syms_at[OF h k1 this] ee show ?thesis by simp
  qed
  have "b + (k + 1) = q + (i - (j - 1))" using fk by (simp add: b_def)
  with at dq x show False by simp
qed

text \<open>After the loop: the last pending link is set and the new symbol joins the active suffix.\<close>

lemma link_sinv:
  assumes inv: "loop_sinv t i j lp" and g: "loop_ginv d t i lp"
      and can: "canonical t (active t)"
      and hb: "add_prefix_head t i = Inr None"
      and l: "add_prefix_link t lp (suffix.source_node_index (active t)) = Inr t2"
  shows "phase_sinv t2 (i + 1) j"
proof -
  let ?S = "seq t"
  let ?M = "map_of (edges t)"
  let ?a = "active t"
  let ?s = "suffix.source_node_index ?a"
  let ?f = "suffix.first_obj_index ?a"
  let ?k = "suffix_length ?a"
  let ?n = "int (length (nodes t))"
  let ?lk = "link_of (nodes t)"
  note i0 = loop_sinvD(1)[OF inv] and ok = loop_sinvD(2)[OF inv] and st = loop_sinvD(3)[OF inv]
    and su = loop_sinvD(4)[OF inv] and le = loop_sinvD(5)[OF inv] and ao = loop_sinvD(6)[OF inv]
    and pe = loop_sinvD(7)[OF inv]
  note j0 = active_okD(1)[OF ao] and pa = active_okD(2)[OF ao] and ra = active_okD(3)[OF ao]
  note la = loop_ginvD(2)[OF g] and sp = loop_ginvD(4)[OF g]
  from add_prefix_link_result[OF l] have
    ed: "edges t2 = edges t"
    and nd: "nodes t2 = (if lp > 0 then (nodes t)[nat lp := \<lparr>suffix_node = ?s\<rparr>] else nodes t)"
    and lpr: "lp > 0 \<longrightarrow> lp < ?n"
    and ac: "active t2 = ?a\<lparr>suffix.last_obj_index := suffix.last_obj_index ?a + 1\<rparr>"
    and at: "same_attrs t t2"
    by simp_all
  have sq: "seq t2 = ?S" using at by (simp add: same_attrs_def)
  have len2: "int (length (nodes t2)) = ?n" by (simp add: nd)
  define lk2 where "lk2 = (if lp > 0 then ?lk(lp := ?s) else ?lk)"
  have lk2: "link_of (nodes t2) = lk2"
    using lpr link_of_set[of lp "nodes t" ?s] by (simp add: nd lk2_def)
  have jf: "j \<le> ?f" using path_le[OF pa ok] .
  have f0: "0 \<le> ?f" using jf j0 by simp
  have "\<exists>y. py_index ?S i = Inr y" using add_prefix_head_break[OF hb] by auto
  then obtain y0 where "py_index ?S i = Inr y0" by blast
  from py_index_nat[OF this i0] have iL: "i < int (length ?S)" by simp
  have A: "suffixes_ok ?S ?M j (i + 1) \<and> reads ?S ?M ?s ?f i \<and> (0 < lp \<longrightarrow> ?f = i)"
  proof (cases "explicit ?a")
    case True
    with add_prefix_head_break[OF hb] obtain c where c: "py_index ?S i = Inr c"
      and mc: "?M (?s, c) \<noteq> None" by auto
    have cS: "c = ?S ! nat i" using py_index_nat[OF c i0] by simp
    show ?thesis
    proof (cases "- 1 \<le> ?k")
      case k1: True
      have fi: "?f = i" using True k1 la by (simp add: explicit_def suffix_length_def)
      from mc cS fi obtain e where m: "?M (?s, ?S ! nat ?f) = Some e" by auto
      have x: "?S ! nat (edge.first_obj_index e + (- 1 + 1)) = ?S ! nat i"
        using tree_okD(8)[OF ok m] fi by simp
      have kk: "(- 1::int) \<le> - 1" "- 1 < edge_length e" using tree_okD(7)[OF ok m] by simp_all
      have fk: "?f + (- 1 + 1) = i" using fi by simp
      have sy: "same_syms ?S (edge.first_obj_index e) ?f (- 1 + 1)" by simp
      note b = break_sem[OF ok st pa m kk fk sy x]
      from b(1) obtain a0 where "0 \<le> a0" "a0 < j" "same_syms ?S a0 j (i - j + 1)" by blast
      from suffixes_ok_next[OF ok su this iL] b(2) fi show ?thesis by simp
    next
      case False
      with sp have k2: "?k = - 2" and s0: "?s = 0" and lp0: "lp = 0" by auto
      have fj: "?f = j" using path_root[OF pa[unfolded s0] ok] .
      have fi: "?f = i + 1" using k2 la by (simp add: suffix_length_def)
      have r: "reads ?S ?M ?s ?f i" using fi by (intro reads.nothing) simp
      have "suffixes_ok ?S ?M j (i + 1)"
        unfolding suffixes_ok_def
      proof (intro conjI allI impI)
        fix h assume "0 \<le> h \<and> h < j"
        then show "reads ?S ?M 0 h (int (length ?S) - 1)" using suffixes_okD(1)[OF su] by simp
      next
        fix h assume "j \<le> h"
        then have "i + 1 - 1 < h" using fj fi by simp
        then show "reads ?S ?M 0 h (i + 1 - 1)" by (rule reads.nothing)
      qed
      with r lp0 show ?thesis by simp
    qed
  next
    case False
    with add_prefix_head_break[OF hb] obtain c e x where
      cf: "py_index ?S ?f = Inr c" and m0: "?M (?s, c) = Some e"
      and x: "py_index ?S (edge.first_obj_index e + ?k + 1) = Inr x"
      and y: "py_index ?S i = Inr x" by auto
    have k0: "0 \<le> ?k" using False by (simp add: explicit_def suffix_length_def)
    have kin: "?k < edge_length e" using canonical_edge[OF can False cf m0] .
    have cS: "c = ?S ! nat ?f" using py_index_nat[OF cf f0] by simp
    have m: "?M (?s, ?S ! nat ?f) = Some e" using m0 cS by simp
    have fe0: "0 \<le> edge.first_obj_index e" using tree_okD(6)[OF ok m] .
    have xS: "x = ?S ! nat (edge.first_obj_index e + (?k + 1))"
      using py_index_nat[OF x] fe0 k0 by (simp add: add.assoc)
    have yS: "x = ?S ! nat i" using py_index_nat[OF y i0] by simp
    have xx: "?S ! nat (edge.first_obj_index e + (?k + 1)) = ?S ! nat i" using xS yS by simp
    have fk: "?f + (?k + 1) = i" using la by (simp add: suffix_length_def)
    have fl: "?f \<le> suffix.last_obj_index ?a" using k0 by (simp add: suffix_length_def)
    have kin': "suffix.last_obj_index ?a - ?f < edge_length e"
      using kin by (simp add: suffix_length_def)
    have sy: "same_syms ?S (edge.first_obj_index e) ?f (?k + 1)"
      using active_inside[OF ra m fl kin'] by (simp add: suffix_length_def)
    have km: "- 1 \<le> ?k" using k0 by simp
    note b = break_sem[OF ok st pa m km kin fk sy xx]
    from b(1) obtain a0 where "0 \<le> a0" "a0 < j" "same_syms ?S a0 j (i - j + 1)" by blast
    note su' = suffixes_ok_next[OF ok su this iL]
    have "\<not> 0 < lp"
    proof
      assume lp0: "0 < lp"
      from pendingD(3)[OF pe lp0] False have "occurs_before ?S (j - 1) i" by simp
      from no_pending_inside[OF ok su pa m k0 kin fk xx this iL] show False .
    qed
    with su' b(2) show ?thesis by simp
  qed
  then have su2: "suffixes_ok ?S ?M j (i + 1)" and r2: "reads ?S ?M ?s ?f i"
    and lpf: "0 < lp \<Longrightarrow> ?f = i" by simp_all
  have ao2: "active_ok ?S ?M j (active t2)"
    unfolding active_ok_def using j0 pa r2 by (simp add: ac la)
  have le2: "links_exact ?S ?M lk2 (\<lambda>v. False)"
  proof (rule links_exact_transfer[OF le])
    fix v assume v: "0 < v" "0 \<le> lk2 v" "\<not> False"
    show "(lk2 v = ?lk v \<and> \<not> v = lp) \<or>
          (\<exists>a b. 0 \<le> a \<and> b \<le> int (length ?S) \<and>
                 path ?S ?M a b v \<and> path ?S ?M (a + 1) b (lk2 v))"
    proof (cases "v = lp")
      case True
      with v(1) have lp0: "0 < lp" by simp
      note pd = pendingD[OF pe lp0]
      have lv: "lk2 v = ?s" using True lp0 by (simp add: lk2_def)
      have p1: "path ?S ?M (j - 1) i v" using pd(2) True by simp
      have p2: "path ?S ?M (j - 1 + 1) i (lk2 v)" using pa lpf[OF lp0] lv by simp
      have "0 \<le> j - 1" "i \<le> int (length ?S)" using pd(1) iL by simp_all
      with p1 p2 show ?thesis by blast
    next
      case False
      then show ?thesis by (simp add: lk2_def)
    qed
  qed
  have i1: "0 \<le> i + 1" using i0 by simp
  show ?thesis
    unfolding phase_sinv_def sq ed len2 lk2
    using i1 ok st su2 le2 ao2 by simp
qed

lemma links_exact_weaken:
  "links_exact S M lk (\<lambda>v. False) \<Longrightarrow> links_exact S M lk X"
  unfolding links_exact_def by blast

lemma phase_sstart:
  assumes "phase_sinv t i j"
  shows "loop_sinv t i j (- 1)"
proof -
  note d = phase_sinvD[OF assms]
  have "pending (seq t) (map_of (edges t)) j i (- 1) (active t)" by (simp add: pending_def)
  with d(1,2,3,4) links_exact_weaken[OF d(5)] d(6) show ?thesis
    unfolding loop_sinv_def by simp
qed

lemma loop_step_sinv:
  assumes inv: "loop_ginv d t i lp" and can: "canonical t (active t)"
      and sinv: "loop_sinv t i j lp"
      and h: "add_prefix_head t i = Inr (Some (t1, p))"
      and x: "add_prefix_extend t1 i lp p = Inr t2"
      and c: "canonize_active t2 = Some (Inr t3)"
  shows "\<exists>d' j'. loop_ginv d' t3 i p \<and> canonical t3 (active t3) \<and> loop_sinv t3 i j' p"
proof -
  from head_ginv[OF h inv can] obtain d' where lr: "leaf_ready d' t1 i lp p" by blast
  from head_sinv[OF h sinv inv can] have sr: "leaf_sready t1 i j lp p" .
  from leaf_ready_extend[OF lr x] have l2: "loop_ginv d' t2 i p" by simp
  from extend_sinv[OF x sr lr] have s2: "loop_sinv t2 i (j + 1) p" .
  from canonize_loop_ginv[OF c l2] have "loop_ginv d' t3 i p" "canonical t3 (active t3)"
    by simp_all
  moreover from canonize_loop_sinv[OF c s2] have "loop_sinv t3 i (j + 1) p" .
  ultimately show ?thesis by blast
qed

lemma add_prefix_sinv:
  assumes a: "add_prefix t i = Some (Inr t')"
      and inv: "phase_ginv d t i" and can: "canonical t (active t)"
      and sinv: "phase_sinv t i j"
  shows "\<exists>d' j'. phase_ginv d' t' (i + 1) \<and> canonical t' (active t') \<and>
                 phase_sinv t' (i + 1) j'"
proof -
  from a obtain t1 lp p where l: "add_prefix_loop t i (- 1) = Some (Inr (t1, lp, p))"
      and f: "add_prefix_finish t1 lp p = Some (Inr t')"
    unfolding add_prefix_def by (auto split: sum.splits Option.bind_splits)
  define I where "I = (\<lambda>(u::'a SuffixTree) (l::int).
     \<exists>d j. loop_ginv d u i l \<and> canonical u (active u) \<and> loop_sinv u i j l)"
  have "I t1 lp \<and> add_prefix_head t1 i = Inr None \<and> p = suffix.source_node_index (active t1)"
  proof (rule add_prefix_loop_rule[where I=I, OF l])
    show "I t (- 1)" unfolding I_def using phase_start[OF inv] can phase_sstart[OF sinv] by blast
  next
    fix u lp u1 p1 u2 u3
    assume "I u lp" and h: "add_prefix_head u i = Inr (Some (u1, p1))"
      and x: "add_prefix_extend u1 i lp p1 = Inr u2" and c: "canonize_active u2 = Some (Inr u3)"
    then obtain d0 j0 where "loop_ginv d0 u i lp" "canonical u (active u)" "loop_sinv u i j0 lp"
      unfolding I_def by blast
    from loop_step_sinv[OF this h x c] show "I u3 p1" unfolding I_def by blast
  qed
  then obtain d1 j1 where i1: "loop_ginv d1 t1 i lp" and c1: "canonical t1 (active t1)"
    and s1: "loop_sinv t1 i j1 lp" and hb: "add_prefix_head t1 i = Inr None"
    and p: "p = suffix.source_node_index (active t1)"
    unfolding I_def by blast
  from f obtain t2 where k: "add_prefix_link t1 lp p = Inr t2"
      and c: "canonize_active t2 = Some (Inr t')"
    unfolding add_prefix_finish_def by (auto split: sum.splits)
  from link_ginv[OF i1 hb k[unfolded p]] have g2: "phase_ginv d1 t2 (i + 1)" .
  from link_sinv[OF s1 i1 c1 hb k[unfolded p]] have s2: "phase_sinv t2 (i + 1) j1" .
  from canonize_phase_ginv[OF c g2] canonize_phase_sinv[OF c s2] show ?thesis by blast
qed

lemma add_prefixes_sinv:
  "add_prefixes t [m ..< m + k] = Some (Inr t') \<Longrightarrow>
   phase_ginv d t (int m) \<Longrightarrow> canonical t (active t) \<Longrightarrow> phase_sinv t (int m) j \<Longrightarrow>
   \<exists>d' j'. phase_ginv d' t' (int (m + k)) \<and> phase_sinv t' (int (m + k)) j'"
proof (induction k arbitrary: t m d j)
  case 0
  then show ?case by auto
next
  case (Suc k)
  have u: "[m ..< m + Suc k] = m # [Suc m ..< Suc m + k]" by (simp add: upt_rec)
  from Suc.prems(1) obtain t1 where a: "add_prefix t (int m) = Some (Inr t1)"
      and r: "add_prefixes t1 [Suc m ..< Suc m + k] = Some (Inr t')"
    unfolding u by (auto split: sum.splits Option.bind_splits)
  from add_prefix_sinv[OF a Suc.prems(2,3,4)] obtain d1 j1 where
    "phase_ginv d1 t1 (int m + 1)" "canonical t1 (active t1)" "phase_sinv t1 (int m + 1) j1"
    by blast
  then have "phase_ginv d1 t1 (int (Suc m))" "canonical t1 (active t1)"
      "phase_sinv t1 (int (Suc m)) j1"
    by (simp_all add: add.commute)
  from Suc.IH[OF r this] show ?case by simp
qed

lemma new_tree_sinv: "phase_sinv (new_tree s) 0 0"
proof -
  have r: "reads s Map.empty 0 h (- 1)" if "0 \<le> h" for h
    using that by (intro reads.nothing) simp
  have "tree_ok s Map.empty 1" by (simp add: tree_ok_def)
  moreover have "starts_ok s Map.empty 0" by (simp add: starts_ok_def)
  moreover have "suffixes_ok s Map.empty 0 0" using r by (auto simp: suffixes_ok_def)
  moreover have "links_exact s Map.empty (link_of [Node]) (\<lambda>v. False)"
    by (simp add: links_exact_def link_of_def)
  moreover have "active_ok s Map.empty 0 (Suffix 0 0 (- 1))"
    using r[of 0] path.at_root[of s Map.empty 0] by (simp add: active_ok_def Suffix_def)
  ultimately show ?thesis by (simp add: phase_sinv_def new_tree_def)
qed

lemma construction_sinv:
  assumes "add_prefixes (new_tree s) [0 ..< n] = Some (Inr t)"
  shows "\<exists>d j. phase_ginv d t (int n) \<and> phase_sinv t (int n) j"
  using add_prefixes_sinv[of "new_tree s" 0 n t "\<lambda>_. 0" 0] assms new_tree_ginv[of s]
    new_tree_sinv[of s]
  by auto

lemma path_nonroot:
  assumes "path S M a b v" and ok: "tree_ok S M n" and "v \<noteq> 0"
  shows "a < b"
proof -
  from path_inv[OF assms(1)] assms(3) obtain b0 u c e where
    p: "path S M a b0 u" and m: "M (u, c) = Some e" and b: "b = b0 + (edge_length e + 1)"
    by auto
  from path_le[OF p ok] tree_okD(7)[OF ok m] b show ?thesis by simp
qed


section \<open>Suffix links and the size of the tree\<close>

lemma ginv_internal_linked:
  assumes g: "ginv d t" and i: "internal_node t v"
  shows "linked t v \<and> 0 \<le> suffix_node (nodes t ! nat v) \<and>
         suffix_node (nodes t ! nat v) < int (length (nodes t))"
proof -
  let ?lk = "link_of (nodes t)"
  from i obtain x where x: "x \<in> set (edges t)" and s: "edge.source_node_index (snd x) = v"
    and v0: "v \<noteq> 0" by (auto simp: internal_node_def)
  from ginvD(4)[OF g] x have "edge_ok d ?lk (int (length (nodes t))) (N t) (jpos d (active t)) x"
    by simp
  then have b: "branch ?lk v" using s by (simp add: edge_ok_def)
  with v0 have vp: "0 < v" and l: "0 \<le> ?lk v" by (auto simp: branch_def)
  have r: "v < int (length (nodes t))" using ginv_range[OF g b] .
  have eq: "?lk v = suffix_node (nodes t ! nat v)" using vp r by (simp add: link_of_def)
  from ginvD(3)[OF g] vp l have "branch ?lk (?lk v)" by (simp add: links_ok_def)
  from ginv_range[OF g this] have "?lk v < int (length (nodes t))" .
  with vp r l eq show ?thesis by (simp add: linked_def)
qed

lemma phase_ginv_counts:
  assumes inv: "phase_ginv d t (int n)" and n: "1 \<le> n"
  shows "length (nodes t) \<le> 2 * n \<and> (2 \<le> n \<longrightarrow> length (nodes t) < 2 * n) \<and>
         length (edges t) < 2 * n"
proof -
  let ?a = "active t"
  let ?j = "jpos d ?a"
  note g = phase_ginvD(1)[OF inv] and la = phase_ginvD(2)[OF inv] and k = phase_ginvD(3)[OF inv]
    and cn = phase_ginvD(4)[OF inv] and c5 = phase_ginvD(5)[OF inv]
  have ds: "0 \<le> d (suffix.source_node_index ?a)"
    using branch_depth[OF ginvD(3)[OF g] ginvD(5)[OF g]] .
  have ad0: "0 \<le> adepth d ?a" using ds k by (simp add: adepth_def)
  have aj: "adepth d ?a = int n - ?j" using la by (simp add: adepth_jpos)
  have jn: "?j \<le> int n" using ad0 aj by simp
  have c1: "int (length (nodes t)) \<le> 2 * int n"
    using cn jn n by (auto simp: pristine_def)
  have c2: "int (length (nodes t)) < 2 * int n" if n2: "2 \<le> n"
  proof (cases "pristine d t")
    case True
    with n2 show ?thesis by (simp add: pristine_def)
  next
    case False
    with cn have le: "int (length (nodes t)) \<le> 2 * ?j" by simp
    show ?thesis
    proof (cases "?j = int n")
      case True
      with aj n2 c5 show ?thesis by simp
    next
      case False
      with jn le show ?thesis by simp
    qed
  qed
  have c3: "length (edges t) + 1 \<le> length (nodes t)" using ginvD(7)[OF g] .
  from c1 c2 c3 show ?thesis by auto
qed

lemma sinv_internal_resolved:
  assumes g: "ginv d t" and s: "phase_sinv t i j" and v: "internal_node t v"
  shows "suffix_link_ok t v"
proof -
  let ?lk = "link_of (nodes t)"
  note ok = phase_sinvD(2)[OF s] and le = phase_sinvD(5)[OF s]
  from ginv_internal_linked[OF g v] have l: "linked t v"
    and l0: "0 \<le> suffix_node (nodes t ! nat v)" by simp_all
  from v have v0: "v \<noteq> 0" by (simp add: internal_node_def)
  with l have vp: "0 < v" and r: "v < int (length (nodes t))" by (simp_all add: linked_def)
  have eq: "?lk v = suffix_node (nodes t ! nat v)" using vp r by (simp add: link_of_def)
  have "0 \<le> ?lk v" using l0 eq by simp
  from links_exactD[OF le vp this] obtain a b where
    ab: "0 \<le> a" "b \<le> int (length (seq t))"
    and p1: "path (seq t) (map_of (edges t)) a b v"
    and p2: "path (seq t) (map_of (edges t)) (a + 1) b (?lk v)" by blast
  from path_nonroot[OF p1 ok v0] have "a < b" .
  with ab p1 p2 show ?thesis
    unfolding suffix_link_ok_def node_label_def eq by blast
qed

text \<open>
  C7. The first \<open>n\<close> phases of the construction (the calls \<open>_add_prefix(0)\<close> to
  \<open>_add_prefix(n - 1)\<close>) always end, with a tree or with an exception, and in the tree
  they return, so after each phase, every internal node has a resolved suffix link: its
  \<open>suffix_node\<close> is not \<open>- 1\<close>, it is the index of an existing node, and it is the
  node a suffix link has to lead to: the edges from the root to the internal node spell
  some \<open>seq[a:b]\<close>, and the edges from the root to its \<open>suffix_node\<close> spell
  \<open>seq[a + 1:b]\<close>. \<open>_split_edge\<close> stores the source node of the active point in
  the node it creates, and \<open>_add_prefix\<close> stores the suffix link there in the next
  pass of its loop or right after the loop; the statement is about what is stored when
  the phase has ended. No internal node is left out, the most recently created one
  included.
\<close>

theorem internal_nodes_linked:
  "\<exists>r. add_prefixes (new_tree s) [0 ..< n] = Some r \<and>
       (\<forall>t v. r = Inr t \<and> internal_node t v \<longrightarrow>
           linked t v \<and> 0 \<le> suffix_node (nodes t ! nat v) \<and>
           suffix_node (nodes t ! nat v) < int (length (nodes t)) \<and>
           suffix_link_ok t v)"
proof -
  from construction_returns[of s n] obtain r where
    r: "add_prefixes (new_tree s) [0 ..< n] = Some r" by blast
  have "linked t v \<and> 0 \<le> suffix_node (nodes t ! nat v) \<and>
        suffix_node (nodes t ! nat v) < int (length (nodes t)) \<and> suffix_link_ok t v"
    if "r = Inr t" and i: "internal_node t v" for t v
  proof -
    from r that(1) have "add_prefixes (new_tree s) [0 ..< n] = Some (Inr t)" by simp
    from construction_sinv[OF this] obtain d j where g: "phase_ginv d t (int n)"
      and s: "phase_sinv t (int n) j" by blast
    from ginv_internal_linked[OF phase_ginvD(1)[OF g] i]
      sinv_internal_resolved[OF phase_ginvD(1)[OF g] s i]
    show ?thesis by simp
  qed
  with r show ?thesis by blast
qed

theorem internal_nodes_linked_witness:
  "add_prefixes (new_tree ''aaba'') [0 ..< 3] = Some (Inr example_phase_tree) \<and>
   internal_node example_phase_tree 2 \<and> linked example_phase_tree 2 \<and>
   suffix_node (nodes example_phase_tree ! nat 2) = 0 \<and>
   suffix_link_ok example_phase_tree 2"
proof -
  have p: "add_prefixes (new_tree ''aaba'') [0 ..< 3] = Some (Inr example_phase_tree)"
    by code_simp
  have i: "internal_node example_phase_tree 2"
    by (simp add: internal_node_def example_phase_tree_def Edge_def)
  have z: "suffix_node (nodes example_phase_tree ! nat 2) = 0"
    by (simp add: example_phase_tree_def)
  from internal_nodes_linked[of "''aaba''" 3] obtain r where
    r: "add_prefixes (new_tree ''aaba'') [0 ..< 3] = Some r"
    and a: "\<forall>t v. r = Inr t \<and> internal_node t v \<longrightarrow> linked t v \<and> suffix_link_ok t v"
    by blast
  from r p have "r = Inr example_phase_tree" by simp
  with a i p z show ?thesis by blast
qed

text \<open>
  C8 as stated fails on the sequence \<open>a\<close> of length \<open>L = 1\<close>: the finished tree has the root
  and one leaf, two nodes, and \<open>2\<close> is not less than \<open>2 * L\<close>.
\<close>

theorem single_symbol_node_count_counterexample:
  "SuffixTree_init ''a'' = Some (Inr example_tree) \<and>
   length (nodes example_tree) = 2 \<and>
   \<not> length (nodes example_tree) < 2 * length ''a''"
  by code_simp

text \<open>
  C8, amended. For every sequence of length \<open>L \<ge> 1\<close> the constructor ends, with a
  tree or with an exception, and the finished tree has at most \<open>2 * L\<close> nodes and fewer than \<open>2 * L\<close> edges; for
  \<open>L \<ge> 2\<close> it has fewer than \<open>2 * L\<close> nodes.
\<close>

theorem node_edge_counts:
  assumes "1 \<le> length s"
  shows "\<exists>r. SuffixTree_init s = Some r \<and>
           (\<forall>t. r = Inr t \<longrightarrow>
               length (nodes t) \<le> 2 * length s \<and>
               (2 \<le> length s \<longrightarrow> length (nodes t) < 2 * length s) \<and>
               length (edges t) < 2 * length s)"
proof -
  from construction_returns[of s "length s"] obtain r where
    r: "SuffixTree_init s = Some r" by (auto simp: SuffixTree_init_def)
  have "length (nodes t) \<le> 2 * length s \<and>
        (2 \<le> length s \<longrightarrow> length (nodes t) < 2 * length s) \<and>
        length (edges t) < 2 * length s"
    if "r = Inr t" for t
  proof -
    from r that have "add_prefixes (new_tree s) [0 ..< length s] = Some (Inr t)"
      by (simp add: SuffixTree_init_def)
    from construction_ginv[OF this] obtain d where "phase_ginv d t (int (length s))" by blast
    from phase_ginv_counts[OF this assms] show ?thesis .
  qed
  with r show ?thesis by blast
qed

theorem node_edge_counts_witness:
  "SuffixTree_init ''aab'' = Some (Inr example_final_tree) \<and>
   length (nodes example_final_tree) = 5 \<and> length (edges example_final_tree) = 4 \<and>
   length (nodes example_final_tree) < 2 * length ''aab'' \<and>
   length (edges example_final_tree) < 2 * length ''aab''"
proof -
  have p: "SuffixTree_init ''aab'' = Some (Inr example_final_tree)" by code_simp
  have l: "1 \<le> length ''aab''" "2 \<le> length ''aab''" by simp_all
  have c: "length (nodes example_final_tree) = 5" "length (edges example_final_tree) = 4"
    by (simp_all add: example_final_tree_def)
  from node_edge_counts[OF l(1)] obtain r where
    r: "SuffixTree_init ''aab'' = Some r"
    and a: "\<forall>t. r = Inr t \<longrightarrow>
               (2 \<le> length ''aab'' \<longrightarrow> length (nodes t) < 2 * length ''aab'') \<and>
               length (edges t) < 2 * length ''aab''"
    by blast
  from r p have "r = Inr example_final_tree" by simp
  with a l(2) p c show ?thesis by blast
qed

end
